theory Spec2Isabelle
  imports Main "HOL-Library.Word"
begin

unbundle bit_operations_syntax

section \<open>Constants of the headers\<close>

text \<open>
  Modelled from the spec: the headers that declare the following macros
  (detect-engine-state.h, stream.h, detect.h, decode.h) are not part of the source file
  under verification.  The spec gives the per-record flags and the per-direction flags as
  bitsets of distinct single bits and names \<open>CHUNK_SIZE\<close> "e.g. 15"; the unit test
  DeStateTest02 fixes the chunk size at 15 (the 15th record is \<open>head->store[14]\<close>, the 16th is
  \<open>head->next->store[0]\<close>).  The bit positions below are distinct single bits; no theorem
  depends on more than that.
\<close>

definition DE_STATE_CHUNK_SIZE :: nat where "DE_STATE_CHUNK_SIZE = 15"

definition STREAM_START :: "8 word" where "STREAM_START = 0x01"
definition STREAM_EOF :: "8 word" where "STREAM_EOF = 0x02"
definition STREAM_TOSERVER :: "8 word" where "STREAM_TOSERVER = 0x04"
definition STREAM_TOCLIENT :: "8 word" where "STREAM_TOCLIENT = 0x08"

definition DE_STATE_FLAG_URI_INSPECT :: "32 word" where "DE_STATE_FLAG_URI_INSPECT = 1"
definition DE_STATE_FLAG_FILE_TC_INSPECT :: "32 word" where "DE_STATE_FLAG_FILE_TC_INSPECT = 0x2000"
definition DE_STATE_FLAG_FILE_TS_INSPECT :: "32 word" where "DE_STATE_FLAG_FILE_TS_INSPECT = 0x4000"
definition DE_STATE_FLAG_FULL_INSPECT :: "32 word" where "DE_STATE_FLAG_FULL_INSPECT = 0x8000"
definition DE_STATE_FLAG_SIG_CANT_MATCH :: "32 word" where "DE_STATE_FLAG_SIG_CANT_MATCH = 0x10000"

definition DETECT_ENGINE_STATE_FLAG_FILE_STORE_DISABLED :: "8 word" where
  "DETECT_ENGINE_STATE_FLAG_FILE_STORE_DISABLED = 0x01"
definition DETECT_ENGINE_STATE_FLAG_FILE_TC_NEW :: "8 word" where
  "DETECT_ENGINE_STATE_FLAG_FILE_TC_NEW = 0x02"
definition DETECT_ENGINE_STATE_FLAG_FILE_TS_NEW :: "8 word" where
  "DETECT_ENGINE_STATE_FLAG_FILE_TS_NEW = 0x04"

definition DE_STATE_MATCH_HAS_NEW_STATE :: "8 word" where "DE_STATE_MATCH_HAS_NEW_STATE = 0x00"
definition DE_STATE_MATCH_NO_NEW_STATE :: "8 word" where "DE_STATE_MATCH_NO_NEW_STATE = 0x80"

definition DETECT_ENGINE_INSPECT_SIG_NO_MATCH :: int where "DETECT_ENGINE_INSPECT_SIG_NO_MATCH = 0"
definition DETECT_ENGINE_INSPECT_SIG_MATCH :: int where "DETECT_ENGINE_INSPECT_SIG_MATCH = 1"
definition DETECT_ENGINE_INSPECT_SIG_CANT_MATCH :: int where "DETECT_ENGINE_INSPECT_SIG_CANT_MATCH = 2"
definition DETECT_ENGINE_INSPECT_SIG_CANT_MATCH_FILESTORE :: int where
  "DETECT_ENGINE_INSPECT_SIG_CANT_MATCH_FILESTORE = 3"

definition PACKET_ALERT_FLAG_STATE_MATCH :: "8 word" where "PACKET_ALERT_FLAG_STATE_MATCH = 0x02"
definition PACKET_ALERT_FLAG_TX :: "8 word" where "PACKET_ALERT_FLAG_TX = 0x08"

definition SIG_FLAG_NOALERT :: "32 word" where "SIG_FLAG_NOALERT = 0x40"

definition DETECT_SM_LIST_AMATCH :: nat where "DETECT_SM_LIST_AMATCH = 3"
definition DETECT_SM_LIST_DMATCH :: nat where "DETECT_SM_LIST_DMATCH = 4"

text \<open>The application-layer protocols the file distinguishes; every other protocol of the
  enum behaves alike here.\<close>

datatype AppProto = ALPROTO_HTTP | ALPROTO_SMB | ALPROTO_SMB2 | ALPROTO_DCERPC | ALPROTO_OTHER nat

section \<open>Data model\<close>

text \<open>
  \<open>SigMatch\<close>: a node of a signature's submatch list.  A pointer into the list
  (\<open>sm\<close>, \<open>item->nm\<close>) is modelled as the list that starts at the node; \<open>NULL\<close> is \<open>[]\<close>.
\<close>

record SigMatch =
  sm_type :: nat

text \<open>
  \<open>Signature\<close>: \<open>num\<close> is the internal id; \<open>sm_lists l\<close> tells whether
  \<open>s->sm_lists[l] != NULL\<close>; \<open>sm_amatch\<close> is the list \<open>s->sm_lists[DETECT_SM_LIST_AMATCH]\<close>
  itself, which the drivers walk.
\<close>

record Signature =
  num :: nat
  sig_flags :: "32 word"
  sm_lists :: "nat \<Rightarrow> bool"
  sm_amatch :: "SigMatch list"

record DeStateStoreItem =
  item_sid :: nat
  item_flags :: "32 word"

record DeStateStoreFlowRule =
  rule_sid :: nat
  rule_flags :: "32 word"
  rule_nm :: "SigMatch list"

text \<open>
  A chunk (\<open>DeStateStore\<close>, \<open>DeStateStoreFlowRules\<close>) is the array \<open>store[DE_STATE_CHUNK_SIZE]\<close>;
  the \<open>next\<close> links are the order of the list of chunks, \<open>head == NULL\<close> is the empty list
  and \<open>tail\<close> is its last chunk.

  \<open>SigIntId\<close>, the type of \<open>cnt\<close>, is an unsigned integer type declared in detect.h, which
  is not part of the source; its width is the type parameter \<open>'w\<close>, and \<open>cnt++\<close> wraps
  around at \<open>2 ^ LENGTH('w)\<close>.  The concrete inputs further down take 16 bits.
\<close>

record (overloaded) ('i, 'w) DirState =
  head :: "'i list list"
  cnt :: "'w::len word"
  filestore_cnt :: "16 word"
  dir_flags :: "8 word"

type_synonym 'w DetectEngineStateDirection = "(DeStateStoreItem, 'w) DirState"
type_synonym 'w DetectEngineStateDirectionFlow = "(DeStateStoreFlowRule, 'w) DirState"

text \<open>\<open>dir_state[2]\<close>, read with \<open>idx2\<close> and written with \<open>upd2\<close> at index 0 or 1.\<close>

type_synonym 'w DetectEngineState = "'w DetectEngineStateDirection \<times> 'w DetectEngineStateDirection"
type_synonym 'w DetectEngineStateFlow = "'w DetectEngineStateDirectionFlow \<times> 'w DetectEngineStateDirectionFlow"

definition idx2 :: "'a \<times> 'a \<Rightarrow> nat \<Rightarrow> 'a" where
  "idx2 a i = (if i = 0 then fst a else snd a)"

definition upd2 :: "'a \<times> 'a \<Rightarrow> nat \<Rightarrow> 'a \<Rightarrow> 'a \<times> 'a" where
  "upd2 a i v = (if i = 0 then (v, snd a) else (fst a, v))"

text \<open>The two ways a call can die: \<open>BUG_ON(1)\<close>, and following \<open>store->next\<close> on \<open>NULL\<close>.\<close>

datatype fault = BugOn | NullDeref

section \<open>Static helpers\<close>

text \<open>\<open>direction & STREAM_TOSERVER ? 0 : 1\<close>, the expression every function repeats.\<close>

definition dir_index :: "8 word \<Rightarrow> nat" where
  "dir_index direction = (if direction AND STREAM_TOSERVER \<noteq> 0 then 0 else 1)"

definition TxIsLast :: "nat \<Rightarrow> nat \<Rightarrow> bool" where
  "TxIsLast tx_id total_txs =
     ((if tx_id \<le> total_txs then total_txs - tx_id else 2 ^ 64 + total_txs - tx_id) \<le> 1)"

text \<open>\<open>memset(d, 0, sizeof(...))\<close> after a successful \<open>SCMalloc\<close>; the argument says whether
  the allocation succeeds.\<close>

definition zero_item :: DeStateStoreItem where
  "zero_item = \<lparr>item_sid = 0, item_flags = 0\<rparr>"

definition zero_rule :: DeStateStoreFlowRule where
  "zero_rule = \<lparr>rule_sid = 0, rule_flags = 0, rule_nm = []\<rparr>"

definition DeStateStoreAlloc :: "bool \<Rightarrow> DeStateStoreItem list option" where
  "DeStateStoreAlloc ok = (if ok then Some (replicate DE_STATE_CHUNK_SIZE zero_item) else None)"

definition DeStateStoreFlowRulesAlloc :: "bool \<Rightarrow> DeStateStoreFlowRule list option" where
  "DeStateStoreFlowRulesAlloc ok =
     (if ok then Some (replicate DE_STATE_CHUNK_SIZE zero_rule) else None)"

definition empty_dir :: "('i, 'w::len) DirState" where
  "empty_dir = \<lparr>head = [], cnt = 0, filestore_cnt = 0, dir_flags = 0\<rparr>"

definition DetectEngineStateAlloc :: "bool \<Rightarrow> 'w::len DetectEngineState option" where
  "DetectEngineStateAlloc ok = (if ok then Some (empty_dir, empty_dir) else None)"

definition DetectEngineStateFlowAlloc :: "bool \<Rightarrow> 'w::len DetectEngineStateFlow option" where
  "DetectEngineStateFlowAlloc ok = (if ok then Some (empty_dir, empty_dir) else None)"

text \<open>
  The tail of both append functions (lines 154-159 and 193-199): \<open>store\<close> is the chunk
  number \<open>k\<close>; \<open>idx = cnt++ % DE_STATE_CHUNK_SIZE\<close>; the slot is overwritten.
\<close>

definition store_write :: "('i, 'w::len) DirState \<Rightarrow> nat \<Rightarrow> 'i \<Rightarrow> ('i, 'w) DirState" where
  "store_write dir_state k r =
     (let idx = unat (cnt dir_state) mod DE_STATE_CHUNK_SIZE
      in dir_state\<lparr>head := (head dir_state)[k := (head dir_state ! k)[idx := r]],
                    cnt := cnt dir_state + 1\<rparr>)"

text \<open>
  The body both append functions share, on the direction they selected.  \<open>alloc\<close> is what
  the chunk allocator returns if it is called.  With a non-empty list, \<open>jump\<close> steps of
  \<open>store = store->next\<close> from \<open>head\<close> end on chunk \<open>jump\<close>, on \<open>NULL\<close> when \<open>jump\<close> is the
  number of chunks, and dereference \<open>NULL\<close> beyond that.
\<close>

definition store_append :: "('i, 'w::len) DirState \<Rightarrow> 'i \<Rightarrow> 'i list option \<Rightarrow> fault + ('i, 'w) DirState" where
  "store_append dir_state r alloc =
     (if head dir_state = [] then
        (case alloc of
           None \<Rightarrow> Inr dir_state
         | Some store \<Rightarrow> Inr (store_write (dir_state\<lparr>head := [store]\<rparr>) 0 r))
      else
        (let jump = unat (cnt dir_state) div DE_STATE_CHUNK_SIZE in
         if jump > length (head dir_state) then Inl NullDeref
         else if jump = length (head dir_state) then
           (case alloc of
              None \<Rightarrow> Inr dir_state
            | Some store \<Rightarrow> Inr (store_write (dir_state\<lparr>head := head dir_state @ [store]\<rparr>) jump r))
         else Inr (store_write dir_state jump r)))"

definition DeStateSignatureAppend ::
  "'w::len DetectEngineState \<Rightarrow> Signature \<Rightarrow> 32 word \<Rightarrow> 8 word \<Rightarrow> bool \<Rightarrow> fault + 'w DetectEngineState" where
  "DeStateSignatureAppend state s inspect_flags direction alloc_ok =
     (case store_append (idx2 state (dir_index direction))
             \<lparr>item_sid = num s, item_flags = inspect_flags\<rparr> (DeStateStoreAlloc alloc_ok) of
        Inl e \<Rightarrow> Inl e
      | Inr d \<Rightarrow> Inr (upd2 state (dir_index direction) d))"

definition DeStateFlowRuleAppend ::
  "'w::len DetectEngineStateFlow \<Rightarrow> Signature \<Rightarrow> SigMatch list \<Rightarrow> 32 word \<Rightarrow> 8 word \<Rightarrow> bool
     \<Rightarrow> fault + 'w DetectEngineStateFlow" where
  "DeStateFlowRuleAppend state s sm inspect_flags direction alloc_ok =
     (case store_append (idx2 state (dir_index direction))
             \<lparr>rule_sid = num s, rule_flags = inspect_flags, rule_nm = sm\<rparr>
             (DeStateStoreFlowRulesAlloc alloc_ok) of
        Inl e \<Rightarrow> Inl e
      | Inr d \<Rightarrow> Inr (upd2 state (dir_index direction) d))"

section \<open>Walking a chunk list\<close>

text \<open>
  The loop both halves of the continue driver run over a direction's chunk list
  (lines 903-920 and 936-950):

  \<^verbatim>\<open>for (; store != NULL; store = store->next)
    for (store_cnt = 0; store_cnt < DE_STATE_CHUNK_SIZE && state_cnt < dir_state->cnt;
         store_cnt++, state_cnt++) { item = &store->store[store_cnt]; r = inspect(item); if (r < 0) goto end; }\<close>

  \<open>inspect_slots\<close> is the inner loop on what is left of one chunk's array, \<open>inspect_store\<close> the
  outer loop.  The inspector \<open>f\<close> returns its result \<open>r\<close>, the record as it left it (it works
  on the record in place) and the state it threads.  The result says whether the walk
  ended in \<open>goto end\<close>, and gives the chunks, \<open>state_cnt\<close> and the state at that moment.
\<close>

fun inspect_slots ::
  "('i \<Rightarrow> 's \<Rightarrow> int \<times> 'i \<times> 's) \<Rightarrow> nat \<Rightarrow> 'i list \<Rightarrow> nat \<Rightarrow> 's \<Rightarrow> bool \<times> 'i list \<times> nat \<times> 's" where
  "inspect_slots f c [] state_cnt s = (False, [], state_cnt, s)"
| "inspect_slots f c (item # rest) state_cnt s =
     (if state_cnt < c then
        (case f item s of (r, item', s') \<Rightarrow>
           if r < 0 then (True, item' # rest, state_cnt, s')
           else (case inspect_slots f c rest (state_cnt + 1) s' of
                   (ab, rest', n, s'') \<Rightarrow> (ab, item' # rest', n, s'')))
      else (False, item # rest, state_cnt, s))"

fun inspect_store ::
  "('i \<Rightarrow> 's \<Rightarrow> int \<times> 'i \<times> 's) \<Rightarrow> nat \<Rightarrow> 'i list list \<Rightarrow> nat \<Rightarrow> 's
     \<Rightarrow> bool \<times> 'i list list \<times> nat \<times> 's" where
  "inspect_store f c [] state_cnt s = (False, [], state_cnt, s)"
| "inspect_store f c (store # rest) state_cnt s =
     (case inspect_slots f c store state_cnt s of (ab, store', n, s') \<Rightarrow>
        if ab then (True, store' # rest, n, s')
        else (case inspect_store f c rest n s' of
                (ab', rest', n', s'') \<Rightarrow> (ab', store' # rest', n', s'')))"

text \<open>\<open>iter\<close> of the spec: the walk from \<open>state_cnt = 0\<close> that only reads each record.\<close>

definition DirStateIter :: "('i, 'w::len) DirState \<Rightarrow> 'i list" where
  "DirStateIter dir_state =
     snd (snd (snd (inspect_store (\<lambda>item acc. (1, item, acc @ [item])) (unat (cnt dir_state))
                      (head dir_state) 0 [])))"

text \<open>
  A sequence of calls of \<open>DeStateSignatureAppend\<close> on one state, each with the signature,
  the flags and the outcome the chunk allocator has if this call reaches it.
\<close>

fun append_all ::
  "'w::len DetectEngineState \<Rightarrow> 8 word \<Rightarrow> (Signature \<times> 32 word \<times> bool) list \<Rightarrow> fault + 'w DetectEngineState" where
  "append_all state direction [] = Inr state"
| "append_all state direction ((s, inspect_flags, alloc_ok) # ops) =
     (case DeStateSignatureAppend state s inspect_flags direction alloc_ok of
        Inl e \<Rightarrow> Inl e
      | Inr state' \<Rightarrow> append_all state' direction ops)"

text \<open>An append reaches the chunk allocator when \<open>head\<close> is \<open>NULL\<close> or the walk of \<open>jump\<close>
  links ends on \<open>NULL\<close>.\<close>

definition append_allocates :: "('i, 'w::len) DirState \<Rightarrow> bool" where
  "append_allocates dir_state =
     (head dir_state = [] \<or> unat (cnt dir_state) div DE_STATE_CHUNK_SIZE = length (head dir_state))"

text \<open>The records of the successful calls of a sequence: those that did not reach the
  allocator, or got a chunk from it.\<close>

fun appended ::
  "'w::len DetectEngineState \<Rightarrow> 8 word \<Rightarrow> (Signature \<times> 32 word \<times> bool) list \<Rightarrow> DeStateStoreItem list" where
  "appended state direction [] = []"
| "appended state direction ((s, inspect_flags, alloc_ok) # ops) =
     (case DeStateSignatureAppend state s inspect_flags direction alloc_ok of
        Inl e \<Rightarrow> []
      | Inr state' \<Rightarrow>
          (if append_allocates (idx2 state (dir_index direction)) \<and> \<not> alloc_ok then []
           else [\<lparr>item_sid = num s, item_flags = inspect_flags\<rparr>])
          @ appended state' direction ops)"

text \<open>The shape of a direction's store that the appends keep and a reset does not break:
  full-size chunks, at least as many as \<open>cnt\<close> needs, holding \<open>recs\<close> in their first \<open>cnt\<close>
  slots.\<close>

definition store_inv :: "('i, 'w::len) DirState \<Rightarrow> 'i list \<Rightarrow> bool" where
  "store_inv ds recs =
     ((\<forall>c \<in> set (head ds). length c = DE_STATE_CHUNK_SIZE) \<and>
      unat (cnt ds) = length recs \<and>
      (unat (cnt ds) + 14) div DE_STATE_CHUNK_SIZE \<le> length (head ds) \<and>
      take (unat (cnt ds)) (concat (head ds)) = recs)"

definition alloc_wf :: "'i list option \<Rightarrow> bool" where
  "alloc_wf alloc = (case alloc of None \<Rightarrow> True | Some c \<Rightarrow> length c = DE_STATE_CHUNK_SIZE)"

text \<open>The appends of the unit test DeStateTest02, with the allocation of the second chunk
  failing once (at the 16th call) and succeeding at the next call.\<close>

definition sig_num :: "nat \<Rightarrow> Signature" where
  "sig_num n = \<lparr>num = n, sig_flags = 0, sm_lists = (\<lambda>_. False), sm_amatch = []\<rparr>"

definition test02_ops :: "(Signature \<times> 32 word \<times> bool) list" where
  "test02_ops = map (\<lambda>(n, ok). (sig_num n, 0, ok))
     [(0, True), (11, True), (22, True), (33, True), (44, True), (55, True), (66, True),
      (77, True), (88, True), (99, True), (100, True), (111, True), (122, True), (133, True),
      (144, True), (155, False), (166, True)]"

section \<open>The flow, the parser and the detection context\<close>

text \<open>
  The application-layer parser is outside the file; the drivers see it through the
  \<open>AppLayerParser...\<close> calls.  A transaction is what those calls return for it: its
  progress for a direction (\<open>AppLayerParserGetStateProgress\<close>), its detect state
  (\<open>AppLayerParserGetTxDetectState\<close>, \<open>AppLayerParserSetTxDetectState\<close>), and the parsed
  data the inspection callbacks look at, kept opaque in \<open>tx_data\<close>.
\<close>

record (overloaded) 'w Tx =
  tx_data :: nat
  tx_progress :: "8 word \<Rightarrow> int"
  detect_state :: "'w::len DetectEngineState option"

text \<open>
  The application-layer state \<open>f->alstate\<close>: \<open>conn\<close> is \<open>htp_state->conn != NULL\<close> (read for
  HTTP only), \<open>dcerpc_present\<close> is the field of \<open>SMBState\<close> (read for SMB and SMB2 only),
  \<open>txs ! tx_id\<close> is what \<open>AppLayerParserGetTx\<close> returns (\<open>None\<close> for \<open>NULL\<close>) and
  \<open>AppLayerParserGetTxCnt\<close> is the length of \<open>txs\<close>.
\<close>

record (overloaded) 'w AlState =
  conn :: bool
  dcerpc_present :: bool
  al_data :: nat
  txs :: "'w::len Tx option list"

text \<open>
  The flow.  \<open>ProtocolSupportsTxs\<close>, \<open>SupportsTxDetectState\<close> and
  \<open>GetStateProgressCompletionStatus\<close> are the parser calls of those names for \<open>f->proto\<close>;
  \<open>inspect_id\<close> is \<open>AppLayerParserGetTransactionInspectId(f->alparser, flags)\<close>.
\<close>

record (overloaded) 'w Flow =
  f_alproto :: AppProto
  f_alstate :: "'w::len AlState option"
  f_de_state :: "'w DetectEngineStateFlow option"
  f_detect_alversion :: "16 word \<times> 16 word"
  inspect_id :: "8 word \<Rightarrow> nat"
  ProtocolSupportsTxs :: "AppProto \<Rightarrow> bool"
  SupportsTxDetectState :: "AppProto \<Rightarrow> bool"
  GetStateProgressCompletionStatus :: "AppProto \<Rightarrow> 8 word \<Rightarrow> int"

text \<open>
  An inspection engine of the table \<open>app_inspection_engine\<close>.  Its callback is called with
  the signature, the direction flags, the application-layer state, the transaction and
  its id; the model hands it the opaque data of the two.
\<close>

record DetectEngineAppInspectionEngine =
  engine_sm_list :: nat
  engine_inspect_flags :: "32 word"
  engine_Callback :: "Signature \<Rightarrow> 8 word \<Rightarrow> nat \<Rightarrow> nat \<Rightarrow> nat \<Rightarrow> int"

text \<open>
  The detection engine: \<open>sig_array\<close>, the engine table for the flow's protocol map indexed
  by protocol and direction (a \<open>next\<close>-linked list, \<open>NULL\<close> is \<open>[]\<close>),
  \<open>sigmatch_table[type].AppLayerMatch\<close> (\<open>None\<close> for \<open>NULL\<close>), \<open>DetectEngineInspectDcePayload\<close>
  and \<open>det_ctx->sgh->filestore_cnt\<close>.
\<close>

record DetectEngineCtx =
  sig_array :: "nat \<Rightarrow> Signature"
  app_inspection_engine :: "AppProto \<Rightarrow> nat \<Rightarrow> DetectEngineAppInspectionEngine list"
  AppLayerMatch :: "nat \<Rightarrow> (8 word \<Rightarrow> nat \<Rightarrow> Signature \<Rightarrow> SigMatch \<Rightarrow> int) option"
  DetectEngineInspectDcePayload :: "Signature \<Rightarrow> 8 word \<Rightarrow> nat \<Rightarrow> int"
  sgh_filestore_cnt :: "16 word"

text \<open>What the allocator and \<open>AppLayerParserSetTxDetectState\<close> answer during one call of the
  start driver, which reaches each of them at most once per transaction.\<close>

record Heap =
  tx_state_alloc_ok :: "nat \<Rightarrow> bool"
  set_tx_state_ok :: "nat \<Rightarrow> bool"
  tx_chunk_alloc_ok :: "nat \<Rightarrow> bool"
  flow_state_alloc_ok :: bool
  flow_chunk_alloc_ok :: bool

record PacketAlert =
  pa_num :: nat
  pa_tx_id :: nat
  pa_flags :: "8 word"

text \<open>A call of a per-record inspector by the continue driver: the transaction id (for
  \<open>DoInspectItem\<close>), the \<open>sid\<close> of the record and the result \<open>r\<close>.\<close>

datatype inspection = InspectItem nat nat int | InspectFlowRule nat int

text \<open>
  What the drivers leave behind outside the flow: the alerts of the packet
  (\<open>PacketAlertAppend\<close>), the signatures whose actions were applied without an alert, the
  post-match runs, the calls of \<open>FileDisableStoringForTransaction\<close>, the array
  \<open>det_ctx->de_state_sig_array\<close>, and the record of the inspector calls.
\<close>

record DetectEngineThreadCtx =
  alerts :: "PacketAlert list"
  actions :: "nat list"
  postmatch :: "nat list"
  files_disabled :: "(8 word \<times> nat) list"
  de_state_sig_array :: "nat \<Rightarrow> 8 word"
  inspected :: "inspection list"

definition StateIsValid :: "AppProto \<Rightarrow> 'w::len AlState option \<Rightarrow> bool" where
  "StateIsValid alproto alstate =
     (case alstate of
        None \<Rightarrow> False
      | Some st \<Rightarrow> (if alproto = ALPROTO_HTTP then conn st else True))"

definition AppLayerParserGetTx :: "'w::len AlState \<Rightarrow> nat \<Rightarrow> 'w Tx option" where
  "AppLayerParserGetTx alstate tx_id =
     (if tx_id < length (txs alstate) then txs alstate ! tx_id else None)"

definition AppLayerParserGetTxCnt :: "'w::len AlState \<Rightarrow> nat" where
  "AppLayerParserGetTxCnt alstate = length (txs alstate)"

text \<open>\<open>s->sm_lists[l] != NULL\<close>.\<close>

definition sm_list_set :: "Signature \<Rightarrow> nat \<Rightarrow> bool" where
  "sm_list_set s l = (if l = DETECT_SM_LIST_AMATCH then sm_amatch s \<noteq> [] else sm_lists s l)"

definition DeStateStoreStateVersion :: "'w::len Flow \<Rightarrow> 16 word \<Rightarrow> 8 word \<Rightarrow> 'w Flow" where
  "DeStateStoreStateVersion f alversion direction =
     f\<lparr>f_detect_alversion := upd2 (f_detect_alversion f) (dir_index direction) alversion\<rparr>"

definition DeStateStoreFileNoMatchCnt ::
  "'w::len DetectEngineState \<Rightarrow> 16 word \<Rightarrow> 8 word \<Rightarrow> 'w DetectEngineState" where
  "DeStateStoreFileNoMatchCnt de_state file_no_match direction =
     upd2 de_state (dir_index direction)
       ((idx2 de_state (dir_index direction))
          \<lparr>filestore_cnt := filestore_cnt (idx2 de_state (dir_index direction)) + file_no_match\<rparr>)"

definition DeStateStoreFilestoreSigsCantMatch :: "16 word \<Rightarrow> 'w::len DetectEngineState \<Rightarrow> 8 word \<Rightarrow> int" where
  "DeStateStoreFilestoreSigsCantMatch sgh_cnt de_state direction =
     (if filestore_cnt (idx2 de_state (dir_index direction)) = sgh_cnt then 1 else 0)"

section \<open>The pre-check\<close>

text \<open>The loop of \<open>HasStoredSigs\<close> over the transaction ids of \<open>ids\<close>, in order.\<close>

fun HasStoredSigs_txs :: "'w::len AlState \<Rightarrow> 8 word \<Rightarrow> nat list \<Rightarrow> int" where
  "HasStoredSigs_txs alstate flags [] = 0"
| "HasStoredSigs_txs alstate flags (inspect_tx_id # ids) =
     (case AppLayerParserGetTx alstate inspect_tx_id of
        None \<Rightarrow> HasStoredSigs_txs alstate flags ids
      | Some inspect_tx \<Rightarrow>
          (case detect_state inspect_tx of
             None \<Rightarrow> HasStoredSigs_txs alstate flags ids
           | Some tx_de_state \<Rightarrow>
               if cnt (idx2 tx_de_state (dir_index flags)) \<noteq> 0 then 1
               else HasStoredSigs_txs alstate flags ids))"

definition HasStoredSigs :: "'w::len Flow \<Rightarrow> 8 word \<Rightarrow> int" where
  "HasStoredSigs f flags =
     (if (case f_de_state f of None \<Rightarrow> False
          | Some de_state \<Rightarrow> cnt (idx2 de_state (dir_index flags)) \<noteq> 0)
      then 1
      else if ProtocolSupportsTxs f (f_alproto f) then
        (if \<not> StateIsValid (f_alproto f) (f_alstate f) then 0
         else case f_alstate f of
                None \<Rightarrow> 0
              | Some alstate \<Rightarrow>
                  HasStoredSigs_txs alstate flags
                    [inspect_id f flags ..< AppLayerParserGetTxCnt alstate])
      else 0)"

definition DeStateFlowHasInspectableState :: "'w::len Flow \<Rightarrow> AppProto \<Rightarrow> 16 word \<Rightarrow> 8 word \<Rightarrow> int" where
  "DeStateFlowHasInspectableState f alproto alversion flags =
     (if flags AND STREAM_EOF = 0 \<and> f_de_state f \<noteq> None \<and>
         idx2 (f_detect_alversion f) (dir_index flags) = alversion
      then 2
      else if HasStoredSigs f flags \<noteq> 0 then 1
      else 0)"

section \<open>The start driver\<close>

definition PacketAlertAppend ::
  "DetectEngineThreadCtx \<Rightarrow> Signature \<Rightarrow> nat \<Rightarrow> 8 word \<Rightarrow> DetectEngineThreadCtx" where
  "PacketAlertAppend det_ctx s tx_id flags =
     det_ctx\<lparr>alerts := alerts det_ctx @ [\<lparr>pa_num = num s, pa_tx_id = tx_id, pa_flags = flags\<rparr>]\<rparr>"

text \<open>\<open>DetectSignatureApplyActions(p, s)\<close> and \<open>PACKET_UPDATE_ACTION(p, s->action)\<close>.\<close>

definition DetectSignatureApplyActions ::
  "DetectEngineThreadCtx \<Rightarrow> Signature \<Rightarrow> DetectEngineThreadCtx" where
  "DetectSignatureApplyActions det_ctx s = det_ctx\<lparr>actions := actions det_ctx @ [num s]\<rparr>"

text \<open>The alert block the start driver repeats (lines 486-491, 531-536, 592-597).\<close>

definition alert_or_apply ::
  "DetectEngineThreadCtx \<Rightarrow> Signature \<Rightarrow> nat \<Rightarrow> 8 word \<Rightarrow> DetectEngineThreadCtx" where
  "alert_or_apply det_ctx s tx_id flags =
     (if sig_flags s AND SIG_FLAG_NOALERT = 0 then PacketAlertAppend det_ctx s tx_id flags
      else DetectSignatureApplyActions det_ctx s)"

text \<open>Writing through the pointer \<open>tx\<close>: the transaction \<open>tx_id\<close> of the flow's state.\<close>

definition set_tx :: "'w::len Flow \<Rightarrow> nat \<Rightarrow> 'w Tx \<Rightarrow> 'w Flow" where
  "set_tx f tx_id tx =
     (case f_alstate f of
        None \<Rightarrow> f
      | Some alstate \<Rightarrow> f\<lparr>f_alstate := Some (alstate\<lparr>txs := (txs alstate)[tx_id := Some tx]\<rparr>)\<rparr>)"

definition StoreState ::
  "Heap \<Rightarrow> 'w::len Flow \<Rightarrow> 8 word \<Rightarrow> 16 word \<Rightarrow> Signature \<Rightarrow> SigMatch list \<Rightarrow> 32 word
     \<Rightarrow> fault + (int \<times> 'w Flow)" where
  "StoreState heap f flags alversion s sm inspect_flags =
     (case (case f_de_state f of
              None \<Rightarrow> DetectEngineStateFlowAlloc (flow_state_alloc_ok heap)
            | Some de_state \<Rightarrow> Some de_state) of
        None \<Rightarrow> Inr (0, f)
      | Some de_state \<Rightarrow>
          (case DeStateFlowRuleAppend de_state s sm inspect_flags flags (flow_chunk_alloc_ok heap) of
             Inl e \<Rightarrow> Inl e
           | Inr de_state' \<Rightarrow>
               Inr (1, DeStateStoreStateVersion (f\<lparr>f_de_state := Some de_state'\<rparr>) alversion flags)))"

definition StoreStateTxHandleFiles ::
  "DetectEngineCtx \<Rightarrow> DetectEngineThreadCtx \<Rightarrow> 'w::len DetectEngineState \<Rightarrow> 8 word \<Rightarrow> nat \<Rightarrow> 16 word
     \<Rightarrow> DetectEngineThreadCtx \<times> 'w DetectEngineState" where
  "StoreStateTxHandleFiles de_ctx det_ctx destate flags tx_id file_no_match =
     (let destate1 = DeStateStoreFileNoMatchCnt destate file_no_match flags in
      if DeStateStoreFilestoreSigsCantMatch (sgh_filestore_cnt de_ctx) destate1 flags = 1 then
        (det_ctx\<lparr>files_disabled := files_disabled det_ctx
                    @ [(flags AND (STREAM_TOCLIENT OR STREAM_TOSERVER), tx_id)]\<rparr>,
         upd2 destate1 (dir_index flags)
           ((idx2 destate1 (dir_index flags))
              \<lparr>dir_flags := dir_flags (idx2 destate1 (dir_index flags))
                             OR DETECT_ENGINE_STATE_FLAG_FILE_STORE_DISABLED\<rparr>))
      else (det_ctx, destate1))"

text \<open>
  Lines 380-391 and 403-414: the detect state of the transaction, allocated and set on
  the transaction when it has none.  \<open>Inr None\<close> is the plain \<open>return\<close> after a failed
  allocation, \<open>Inl BugOn\<close> the \<open>BUG_ON(1)\<close> after a failed
  \<open>AppLayerParserSetTxDetectState\<close>.
\<close>

definition tx_destate :: "Heap \<Rightarrow> nat \<Rightarrow> 'w::len Tx \<Rightarrow> fault + 'w DetectEngineState option" where
  "tx_destate heap tx_id tx =
     (case detect_state tx of
        Some destate \<Rightarrow> Inr (Some destate)
      | None \<Rightarrow>
          (case DetectEngineStateAlloc (tx_state_alloc_ok heap tx_id) of
             None \<Rightarrow> Inr None
           | Some destate \<Rightarrow> if set_tx_state_ok heap tx_id then Inr (Some destate) else Inl BugOn))"

definition StoreStateTxFileOnly ::
  "DetectEngineCtx \<Rightarrow> Heap \<Rightarrow> DetectEngineThreadCtx \<Rightarrow> 'w::len Flow \<Rightarrow> 8 word \<Rightarrow> nat \<Rightarrow> 'w Tx \<Rightarrow> 16 word
     \<Rightarrow> fault + (DetectEngineThreadCtx \<times> 'w Flow)" where
  "StoreStateTxFileOnly de_ctx heap det_ctx f flags tx_id tx file_no_match =
     (if SupportsTxDetectState f (f_alproto f) then
        (case tx_destate heap tx_id tx of
           Inl e \<Rightarrow> Inl e
         | Inr None \<Rightarrow> Inr (det_ctx, f)
         | Inr (Some destate) \<Rightarrow>
             (case StoreStateTxHandleFiles de_ctx det_ctx destate flags tx_id file_no_match of
                (det_ctx', destate') \<Rightarrow>
                  Inr (det_ctx', set_tx f tx_id (tx\<lparr>detect_state := Some destate'\<rparr>))))
      else Inr (det_ctx, f))"

definition StoreStateTx ::
  "DetectEngineCtx \<Rightarrow> Heap \<Rightarrow> DetectEngineThreadCtx \<Rightarrow> 'w::len Flow \<Rightarrow> 8 word \<Rightarrow> 16 word \<Rightarrow> nat \<Rightarrow> 'w Tx
     \<Rightarrow> Signature \<Rightarrow> 32 word \<Rightarrow> 16 word \<Rightarrow> fault + (DetectEngineThreadCtx \<times> 'w Flow)" where
  "StoreStateTx de_ctx heap det_ctx f flags alversion tx_id tx s inspect_flags file_no_match =
     (if SupportsTxDetectState f (f_alproto f) then
        (case tx_destate heap tx_id tx of
           Inl e \<Rightarrow> Inl e
         | Inr None \<Rightarrow> Inr (det_ctx, f)
         | Inr (Some destate) \<Rightarrow>
             (case DeStateSignatureAppend destate s inspect_flags flags
                     (tx_chunk_alloc_ok heap tx_id) of
                Inl e \<Rightarrow> Inl e
              | Inr destate1 \<Rightarrow>
                  (case StoreStateTxHandleFiles de_ctx det_ctx destate1 flags tx_id file_no_match of
                     (det_ctx', destate2) \<Rightarrow>
                       Inr (det_ctx',
                            set_tx (DeStateStoreStateVersion f alversion flags) tx_id
                              (tx\<lparr>detect_state := Some destate2\<rparr>)))))
      else Inr (det_ctx, f))"

text \<open>
  The \<open>while (engine != NULL)\<close> loop of the start driver (lines 459-481) from the engine
  \<open>engine\<close> on.  It returns \<open>engine\<close> as the loop leaves it (\<open>[]\<close> for \<open>NULL\<close>),
  \<open>inspect_flags\<close>, \<open>total_matches\<close> and \<open>file_no_match\<close>.
\<close>

fun start_engines ::
  "Signature \<Rightarrow> 8 word \<Rightarrow> nat \<Rightarrow> nat \<Rightarrow> nat \<Rightarrow> DetectEngineAppInspectionEngine list
     \<Rightarrow> 32 word \<Rightarrow> int \<Rightarrow> 16 word
     \<Rightarrow> DetectEngineAppInspectionEngine list \<times> 32 word \<times> int \<times> 16 word" where
  "start_engines s flags al tx tx_id [] inspect_flags total_matches file_no_match =
     ([], inspect_flags, total_matches, file_no_match)"
| "start_engines s flags al tx tx_id (engine # next) inspect_flags total_matches file_no_match =
     (if sm_list_set s (engine_sm_list engine) then
        (let match = engine_Callback engine s flags al tx tx_id in
         if match = DETECT_ENGINE_INSPECT_SIG_MATCH then
           start_engines s flags al tx tx_id next
             (inspect_flags OR engine_inspect_flags engine) (total_matches + 1) file_no_match
         else if match = DETECT_ENGINE_INSPECT_SIG_CANT_MATCH then
           (engine # next,
            inspect_flags OR DE_STATE_FLAG_SIG_CANT_MATCH OR engine_inspect_flags engine,
            total_matches, file_no_match)
         else if match = DETECT_ENGINE_INSPECT_SIG_CANT_MATCH_FILESTORE then
           (engine # next,
            inspect_flags OR DE_STATE_FLAG_SIG_CANT_MATCH OR engine_inspect_flags engine,
            total_matches, file_no_match + 1)
         else (engine # next, inspect_flags, total_matches, file_no_match))
      else start_engines s flags al tx tx_id next inspect_flags total_matches file_no_match)"

text \<open>
  The locals the start driver carries from one transaction to the next and into the
  flow part: \<open>inspect_flags\<close> (set to 0 at each transaction that exists, but not before the
  flow part), \<open>file_no_match\<close> and \<open>alert_cnt\<close>.
\<close>

type_synonym 'w start_locals = "DetectEngineThreadCtx \<times> 'w Flow \<times> 32 word \<times> 16 word \<times> int"

text \<open>One round of the \<open>for\<close> loop over the transactions (lines 451-512).\<close>

definition start_tx ::
  "DetectEngineCtx \<Rightarrow> Heap \<Rightarrow> Signature \<Rightarrow> 8 word \<Rightarrow> AppProto \<Rightarrow> 16 word \<Rightarrow> nat \<Rightarrow> nat
     \<Rightarrow> 'w::len start_locals \<Rightarrow> fault + 'w start_locals" where
  "start_tx de_ctx heap s flags alproto alversion total_txs tx_id st =
     (case st of (det_ctx, f, inspect_flags, file_no_match, alert_cnt) \<Rightarrow>
      case f_alstate f of
        None \<Rightarrow> Inr st
      | Some alstate \<Rightarrow>
      (case AppLayerParserGetTx alstate tx_id of
         None \<Rightarrow> Inr st
       | Some tx \<Rightarrow>
         (case start_engines s flags (al_data alstate) (tx_data tx) tx_id
                 (app_inspection_engine de_ctx alproto (dir_index flags)) 0 0 file_no_match of
            (engine, inspect_flags1, total_matches, file_no_match1) \<Rightarrow>
              (let matched = (engine = [] \<and> total_matches > 0);
                   det_ctx1 = (if matched
                               then alert_or_apply det_ctx s tx_id
                                      (PACKET_ALERT_FLAG_STATE_MATCH OR PACKET_ALERT_FLAG_TX)
                               else det_ctx);
                   alert_cnt1 = (if matched then 1 else alert_cnt);
                   tx_is_done = (tx_progress tx flags
                                   \<ge> GetStateProgressCompletionStatus f alproto flags)
               in
               if matched \<or> inspect_flags1 AND DE_STATE_FLAG_SIG_CANT_MATCH \<noteq> 0 then
                 (if \<not> TxIsLast tx_id total_txs \<or> \<not> tx_is_done then
                    (let inspect_flags2 =
                           (if engine = [] \<or> inspect_flags1 AND DE_STATE_FLAG_SIG_CANT_MATCH \<noteq> 0
                            then inspect_flags1 OR DE_STATE_FLAG_FULL_INSPECT else inspect_flags1)
                     in case StoreStateTx de_ctx heap det_ctx1 f flags alversion tx_id tx s
                               inspect_flags2 file_no_match1 of
                          Inl e \<Rightarrow> Inl e
                        | Inr (det_ctx2, f2) \<Rightarrow>
                            Inr (det_ctx2, f2, inspect_flags2, file_no_match1, alert_cnt1))
                  else
                    (case StoreStateTxFileOnly de_ctx heap det_ctx1 f flags tx_id tx
                            file_no_match1 of
                       Inl e \<Rightarrow> Inl e
                     | Inr (det_ctx2, f2) \<Rightarrow>
                         Inr (det_ctx2, f2, inspect_flags1, file_no_match1, alert_cnt1)))
               else Inr (det_ctx1, f, inspect_flags1, file_no_match1, alert_cnt1)))))"

fun start_txs ::
  "DetectEngineCtx \<Rightarrow> Heap \<Rightarrow> Signature \<Rightarrow> 8 word \<Rightarrow> AppProto \<Rightarrow> 16 word \<Rightarrow> nat \<Rightarrow> nat list
     \<Rightarrow> 'w::len start_locals \<Rightarrow> fault + 'w start_locals" where
  "start_txs de_ctx heap s flags alproto alversion total_txs [] st = Inr st"
| "start_txs de_ctx heap s flags alproto alversion total_txs (tx_id # ids) st =
     (case start_tx de_ctx heap s flags alproto alversion total_txs tx_id st of
        Inl e \<Rightarrow> Inl e
      | Inr st' \<Rightarrow> start_txs de_ctx heap s flags alproto alversion total_txs ids st')"

text \<open>One call of \<open>sigmatch_table[sm->type].AppLayerMatch\<close> as both drivers make it
  (lines 565-579 and 784-798): for SMB and SMB2 only when \<open>dcerpc_present\<close>, else \<open>match\<close>
  stays 0.\<close>

definition app_layer_match ::
  "(8 word \<Rightarrow> nat \<Rightarrow> Signature \<Rightarrow> SigMatch \<Rightarrow> int) \<Rightarrow> 8 word \<Rightarrow> AppProto \<Rightarrow> 'w::len AlState
     \<Rightarrow> Signature \<Rightarrow> SigMatch \<Rightarrow> int" where
  "app_layer_match cb flags alproto alstate s sm =
     (if alproto = ALPROTO_SMB \<or> alproto = ALPROTO_SMB2 then
        (if dcerpc_present alstate then cb flags (al_data alstate) s sm else 0)
      else cb flags (al_data alstate) s sm)"

text \<open>The \<open>for ( ; sm != NULL; sm = sm->next)\<close> loop of the start driver (lines 563-588);
  it returns \<open>sm\<close>, \<open>match\<close> and \<open>inspect_flags\<close>.\<close>

fun start_amatch ::
  "DetectEngineCtx \<Rightarrow> 8 word \<Rightarrow> AppProto \<Rightarrow> 'w::len AlState \<Rightarrow> Signature \<Rightarrow> SigMatch list \<Rightarrow> int
     \<Rightarrow> 32 word \<Rightarrow> SigMatch list \<times> int \<times> 32 word" where
  "start_amatch de_ctx flags alproto alstate s [] match inspect_flags = ([], match, inspect_flags)"
| "start_amatch de_ctx flags alproto alstate s (sm # next) match inspect_flags =
     (case AppLayerMatch de_ctx (sm_type sm) of
        None \<Rightarrow> start_amatch de_ctx flags alproto alstate s next match inspect_flags
      | Some cb \<Rightarrow>
          (let match1 = app_layer_match cb flags alproto alstate s sm in
           if match1 = 0 then (sm # next, match1, inspect_flags)
           else if match1 = 2 then
             (sm # next, match1, inspect_flags OR DE_STATE_FLAG_SIG_CANT_MATCH)
           else start_amatch de_ctx flags alproto alstate s next match1 inspect_flags))"

text \<open>
  The three parts of the start driver.  The first component of a part's result is
  whether it left through \<open>goto end\<close>.
\<close>

definition start_tx_part ::
  "DetectEngineCtx \<Rightarrow> Heap \<Rightarrow> Signature \<Rightarrow> 8 word \<Rightarrow> AppProto \<Rightarrow> 16 word \<Rightarrow> 'w::len start_locals
     \<Rightarrow> fault + (bool \<times> 'w start_locals)" where
  "start_tx_part de_ctx heap s flags alproto alversion st =
     (case st of (det_ctx, f, inspect_flags, file_no_match, alert_cnt) \<Rightarrow>
      if \<not> StateIsValid alproto (f_alstate f) then Inr (True, st)
      else case f_alstate f of
             None \<Rightarrow> Inr (True, st)
           | Some alstate \<Rightarrow>
               (case start_txs de_ctx heap s flags alproto alversion
                       (AppLayerParserGetTxCnt alstate)
                       [inspect_id f flags ..< AppLayerParserGetTxCnt alstate] st of
                  Inl e \<Rightarrow> Inl e
                | Inr st' \<Rightarrow> Inr (False, st')))"

definition start_dce_part ::
  "DetectEngineCtx \<Rightarrow> Signature \<Rightarrow> 8 word \<Rightarrow> AppProto \<Rightarrow> 'w::len start_locals \<Rightarrow> bool \<times> 'w start_locals" where
  "start_dce_part de_ctx s flags alproto st =
     (case st of (det_ctx, f, inspect_flags, file_no_match, alert_cnt) \<Rightarrow>
      case f_alstate f of
        None \<Rightarrow> (True, st)
      | Some alstate \<Rightarrow>
          if (if alproto = ALPROTO_SMB \<or> alproto = ALPROTO_SMB2
              then dcerpc_present alstate \<and>
                   DetectEngineInspectDcePayload de_ctx s flags (al_data alstate) = 1
              else DetectEngineInspectDcePayload de_ctx s flags (al_data alstate) = 1)
          then (False, alert_or_apply det_ctx s 0 PACKET_ALERT_FLAG_STATE_MATCH, f,
                inspect_flags, file_no_match, 1)
          else (False, st))"

definition start_flow_part ::
  "DetectEngineCtx \<Rightarrow> Heap \<Rightarrow> Signature \<Rightarrow> 8 word \<Rightarrow> AppProto \<Rightarrow> 16 word \<Rightarrow> 'w::len start_locals
     \<Rightarrow> fault + 'w start_locals" where
  "start_flow_part de_ctx heap s flags alproto alversion st =
     (case st of (det_ctx, f, inspect_flags, file_no_match, alert_cnt) \<Rightarrow>
      if sm_amatch s \<noteq> [] then
        (case f_alstate f of
           None \<Rightarrow> Inr st
         | Some alstate \<Rightarrow>
             (case start_amatch de_ctx flags alproto alstate s (sm_amatch s) 0 inspect_flags of
                (sm, match, inspect_flags1) \<Rightarrow>
                  (let enter = (sm = [] \<or> inspect_flags1 AND DE_STATE_FLAG_SIG_CANT_MATCH \<noteq> 0);
                       det_ctx1 = (if enter \<and> match = 1
                                   then alert_or_apply det_ctx s 0 PACKET_ALERT_FLAG_STATE_MATCH
                                   else det_ctx);
                       alert_cnt1 = (if enter \<and> match = 1 then 1 else alert_cnt);
                       inspect_flags2 = (if enter then inspect_flags1 OR DE_STATE_FLAG_FULL_INSPECT
                                         else inspect_flags1)
                   in case StoreState heap f flags alversion s sm inspect_flags2 of
                        Inl e \<Rightarrow> Inl e
                      | Inr (r, f1) \<Rightarrow>
                          Inr (det_ctx1, f1, inspect_flags2, file_no_match, alert_cnt1))))
      else Inr st)"

text \<open>
  \<open>DeStateDetectStartDetection\<close>: the return value (\<open>alert_cnt ? 1 : 0\<close>), the detection
  context and the flow; or the fault the call died of.
\<close>

definition DeStateDetectStartDetection ::
  "DetectEngineCtx \<Rightarrow> Heap \<Rightarrow> DetectEngineThreadCtx \<Rightarrow> Signature \<Rightarrow> 'w::len Flow \<Rightarrow> 8 word \<Rightarrow> AppProto
     \<Rightarrow> 16 word \<Rightarrow> fault + (int \<times> DetectEngineThreadCtx \<times> 'w Flow)" where
  "DeStateDetectStartDetection de_ctx heap det_ctx s f flags alproto alversion =
     (case (if ProtocolSupportsTxs f alproto then
              start_tx_part de_ctx heap s flags alproto alversion (det_ctx, f, 0, 0, 0)
            else if sm_list_set s DETECT_SM_LIST_DMATCH \<and>
                    (alproto = ALPROTO_DCERPC \<or> alproto = ALPROTO_SMB \<or> alproto = ALPROTO_SMB2)
            then Inr (start_dce_part de_ctx s flags alproto (det_ctx, f, 0, 0, 0))
            else Inr (False, (det_ctx, f, 0, 0, 0))) of
        Inl e \<Rightarrow> Inl e
      | Inr (ended, st) \<Rightarrow>
          (case (if ended then Inr st
                 else start_flow_part de_ctx heap s flags alproto alversion st) of
             Inl e \<Rightarrow> Inl e
           | Inr (det_ctx', f', inspect_flags, file_no_match, alert_cnt) \<Rightarrow>
               Inr (if alert_cnt \<noteq> 0 then 1 else 0, det_ctx', f')))"

section \<open>The continue driver\<close>

text \<open>\<open>det_ctx->de_state_sig_array[sid] = DE_STATE_MATCH_NO_NEW_STATE\<close>.\<close>

definition no_new_state :: "DetectEngineThreadCtx \<Rightarrow> nat \<Rightarrow> DetectEngineThreadCtx" where
  "no_new_state det_ctx sid' =
     det_ctx\<lparr>de_state_sig_array := (de_state_sig_array det_ctx)(sid' := DE_STATE_MATCH_NO_NEW_STATE)\<rparr>"

text \<open>
  The first block of \<open>DoInspectItem\<close> (lines 628-643), entered with \<open>FULL_INSPECT\<close> set:
  the flags of the record after the two tests for a new file.
\<close>

definition reopen_full_inspect :: "32 word \<Rightarrow> 8 word \<Rightarrow> 8 word \<Rightarrow> 32 word" where
  "reopen_full_inspect item_fl flags dir_state_flags =
     (if item_fl AND (DE_STATE_FLAG_FILE_TC_INSPECT OR DE_STATE_FLAG_FILE_TS_INSPECT) \<noteq> 0 then
        (let fl1 = (if flags AND STREAM_TOCLIENT \<noteq> 0 \<and>
                       dir_state_flags AND DETECT_ENGINE_STATE_FLAG_FILE_TC_NEW \<noteq> 0
                    then (item_fl AND NOT DE_STATE_FLAG_FILE_TC_INSPECT)
                           AND NOT DE_STATE_FLAG_FULL_INSPECT
                    else item_fl)
         in (if flags AND STREAM_TOSERVER \<noteq> 0 \<and>
                dir_state_flags AND DETECT_ENGINE_STATE_FLAG_FILE_TS_NEW \<noteq> 0
             then (fl1 AND NOT DE_STATE_FLAG_FILE_TS_INSPECT) AND NOT DE_STATE_FLAG_FULL_INSPECT
             else fl1))
      else item_fl)"

text \<open>
  The second block (lines 655-674), entered with \<open>DE_STATE_FLAG_SIG_CANT_MATCH\<close> set:
  \<open>None\<close> is the \<open>else\<close> branch that returns 0, otherwise the flags after the clearing.
\<close>

definition reopen_cant_match :: "32 word \<Rightarrow> 8 word \<Rightarrow> 8 word \<Rightarrow> 32 word option" where
  "reopen_cant_match item_fl flags dir_state_flags =
     (if flags AND STREAM_TOSERVER \<noteq> 0 \<and>
         item_fl AND DE_STATE_FLAG_FILE_TS_INSPECT \<noteq> 0 \<and>
         dir_state_flags AND DETECT_ENGINE_STATE_FLAG_FILE_TS_NEW \<noteq> 0
      then Some ((item_fl AND NOT DE_STATE_FLAG_FILE_TS_INSPECT)
                   AND NOT DE_STATE_FLAG_SIG_CANT_MATCH)
      else if flags AND STREAM_TOCLIENT \<noteq> 0 \<and>
              item_fl AND DE_STATE_FLAG_FILE_TC_INSPECT \<noteq> 0 \<and>
              dir_state_flags AND DETECT_ENGINE_STATE_FLAG_FILE_TC_NEW \<noteq> 0
      then Some ((item_fl AND NOT DE_STATE_FLAG_FILE_TC_INSPECT)
                   AND NOT DE_STATE_FLAG_SIG_CANT_MATCH)
      else None)"

text \<open>
  The \<open>while (engine != NULL)\<close> loop of \<open>DoInspectItem\<close> (lines 697-720); \<open>item_fl\<close> is
  \<open>item->flags\<close>, which the loop only reads.
\<close>

fun continue_engines ::
  "Signature \<Rightarrow> 32 word \<Rightarrow> 8 word \<Rightarrow> nat \<Rightarrow> nat \<Rightarrow> nat \<Rightarrow> DetectEngineAppInspectionEngine list
     \<Rightarrow> 32 word \<Rightarrow> int \<Rightarrow> 16 word
     \<Rightarrow> DetectEngineAppInspectionEngine list \<times> 32 word \<times> int \<times> 16 word" where
  "continue_engines s item_fl flags al tx tx_id [] inspect_flags total_matches file_no_match =
     ([], inspect_flags, total_matches, file_no_match)"
| "continue_engines s item_fl flags al tx tx_id (engine # next) inspect_flags total_matches
       file_no_match =
     (if item_fl AND engine_inspect_flags engine = 0 \<and> sm_list_set s (engine_sm_list engine) then
        (let match = engine_Callback engine s flags al tx tx_id in
         if match = DETECT_ENGINE_INSPECT_SIG_MATCH then
           continue_engines s item_fl flags al tx tx_id next
             (inspect_flags OR engine_inspect_flags engine) (total_matches + 1) file_no_match
         else if match = DETECT_ENGINE_INSPECT_SIG_CANT_MATCH then
           (engine # next,
            inspect_flags OR DE_STATE_FLAG_SIG_CANT_MATCH OR engine_inspect_flags engine,
            total_matches, file_no_match)
         else if match = DETECT_ENGINE_INSPECT_SIG_CANT_MATCH_FILESTORE then
           (engine # next,
            inspect_flags OR DE_STATE_FLAG_SIG_CANT_MATCH OR engine_inspect_flags engine,
            total_matches, file_no_match + 1)
         else (engine # next, inspect_flags, total_matches, file_no_match))
      else continue_engines s item_fl flags al tx tx_id next inspect_flags total_matches
             file_no_match)"

text \<open>
  \<open>DoInspectItem\<close>, from line 676 on: the record's flags are \<open>item_fl\<close> by now.
\<close>

definition DoInspectItem_run ::
  "DetectEngineCtx \<Rightarrow> 'w::len Flow \<Rightarrow> AppProto \<Rightarrow> 8 word \<Rightarrow> nat \<Rightarrow> nat \<Rightarrow> DeStateStoreItem \<Rightarrow> 32 word
     \<Rightarrow> DetectEngineThreadCtx \<times> 16 word
     \<Rightarrow> int \<times> DeStateStoreItem \<times> DetectEngineThreadCtx \<times> 16 word" where
  "DoInspectItem_run de_ctx f alproto flags inspect_tx_id total_txs item item_fl st =
     (case st of (det_ctx, file_no_match) \<Rightarrow>
      let s = sig_array de_ctx (item_sid item) in
      if \<not> StateIsValid alproto (f_alstate f) then
        (- 1, item\<lparr>item_flags := item_fl\<rparr>, det_ctx, file_no_match)
      else case f_alstate f of
        None \<Rightarrow> (- 1, item\<lparr>item_flags := item_fl\<rparr>, det_ctx, file_no_match)
      | Some alstate \<Rightarrow>
      (case AppLayerParserGetTx alstate inspect_tx_id of
         None \<Rightarrow> (- 1, item\<lparr>item_flags := item_fl\<rparr>, det_ctx, file_no_match)
       | Some inspect_tx \<Rightarrow>
         (case continue_engines s item_fl flags (al_data alstate) (tx_data inspect_tx)
                 inspect_tx_id (app_inspection_engine de_ctx alproto (dir_index flags))
                 0 0 file_no_match of
            (engine, inspect_flags, total_matches, file_no_match1) \<Rightarrow>
              (let full = (total_matches > 0 \<and>
                           (engine = [] \<or> inspect_flags AND DE_STATE_FLAG_SIG_CANT_MATCH \<noteq> 0));
                   alert = (full \<and> engine = []);
                   inspect_flags1 = (if full then inspect_flags OR DE_STATE_FLAG_FULL_INSPECT
                                     else inspect_flags);
                   det_ctx1 = (if TxIsLast inspect_tx_id total_txs
                               then no_new_state det_ctx (item_sid item) else det_ctx);
                   det_ctx2 = (if alert
                               then (let d = det_ctx1\<lparr>postmatch := postmatch det_ctx1 @ [num s]\<rparr>
                                     in if sig_flags s AND SIG_FLAG_NOALERT = 0
                                        then PacketAlertAppend d s inspect_tx_id
                                               (PACKET_ALERT_FLAG_STATE_MATCH OR PACKET_ALERT_FLAG_TX)
                                        else DetectSignatureApplyActions d s)
                               else det_ctx1)
               in (1, item\<lparr>item_flags := item_fl OR inspect_flags1\<rparr>, det_ctx2,
                   file_no_match1)))))"

definition DoInspectItem ::
  "DetectEngineCtx \<Rightarrow> 8 word \<Rightarrow> 'w::len Flow \<Rightarrow> AppProto \<Rightarrow> 8 word \<Rightarrow> nat \<Rightarrow> nat \<Rightarrow> bool \<Rightarrow> bool
     \<Rightarrow> DeStateStoreItem \<Rightarrow> DetectEngineThreadCtx \<times> 16 word
     \<Rightarrow> int \<times> DeStateStoreItem \<times> DetectEngineThreadCtx \<times> 16 word" where
  "DoInspectItem de_ctx dir_state_flags f alproto flags inspect_tx_id total_txs inprogress
       next_tx_no_progress item st =
     (case st of (det_ctx, file_no_match) \<Rightarrow>
      let skip = (\<lambda>fl. (0, item\<lparr>item_flags := fl\<rparr>,
                        (if TxIsLast inspect_tx_id total_txs \<or> inprogress \<or> next_tx_no_progress
                         then no_new_state det_ctx (item_sid item) else det_ctx),
                        file_no_match));
          fl1 = (if item_flags item AND DE_STATE_FLAG_FULL_INSPECT \<noteq> 0
                 then reopen_full_inspect (item_flags item) flags dir_state_flags
                 else item_flags item)
      in
      if item_flags item AND DE_STATE_FLAG_FULL_INSPECT \<noteq> 0 \<and>
         fl1 AND DE_STATE_FLAG_FULL_INSPECT \<noteq> 0
      then skip fl1
      else if fl1 AND DE_STATE_FLAG_SIG_CANT_MATCH \<noteq> 0 then
        (case reopen_cant_match fl1 flags dir_state_flags of
           None \<Rightarrow> skip fl1
         | Some fl2 \<Rightarrow>
             DoInspectItem_run de_ctx f alproto flags inspect_tx_id total_txs item fl2 st)
      else DoInspectItem_run de_ctx f alproto flags inspect_tx_id total_txs item fl1 st)"

text \<open>The \<open>for (sm = item->nm; sm != NULL; sm = sm->next)\<close> loop of \<open>DoInspectFlowRule\<close>
  (lines 781-807); it returns \<open>sm\<close>, \<open>inspect_flags\<close> and \<open>total_matches\<close>.\<close>

fun continue_amatch ::
  "DetectEngineCtx \<Rightarrow> 8 word \<Rightarrow> AppProto \<Rightarrow> 'w::len AlState \<Rightarrow> Signature \<Rightarrow> SigMatch list \<Rightarrow> 32 word
     \<Rightarrow> int \<Rightarrow> SigMatch list \<times> 32 word \<times> int" where
  "continue_amatch de_ctx flags alproto alstate s [] inspect_flags total_matches =
     ([], inspect_flags, total_matches)"
| "continue_amatch de_ctx flags alproto alstate s (sm # next) inspect_flags total_matches =
     (case AppLayerMatch de_ctx (sm_type sm) of
        None \<Rightarrow> continue_amatch de_ctx flags alproto alstate s next inspect_flags total_matches
      | Some cb \<Rightarrow>
          (let match = app_layer_match cb flags alproto alstate s sm in
           if match = 0 then (sm # next, inspect_flags, total_matches)
           else if match = 2 then
             continue_amatch de_ctx flags alproto alstate s next
               (inspect_flags OR DE_STATE_FLAG_SIG_CANT_MATCH) total_matches
           else if match = 1 then
             continue_amatch de_ctx flags alproto alstate s next inspect_flags (total_matches + 1)
           else continue_amatch de_ctx flags alproto alstate s next inspect_flags total_matches))"

definition DoInspectFlowRule ::
  "DetectEngineCtx \<Rightarrow> 8 word \<Rightarrow> 'w::len Flow \<Rightarrow> AppProto \<Rightarrow> 8 word \<Rightarrow> DeStateStoreFlowRule
     \<Rightarrow> DetectEngineThreadCtx \<Rightarrow> int \<times> DeStateStoreFlowRule \<times> DetectEngineThreadCtx" where
  "DoInspectFlowRule de_ctx dir_state_flags f alproto flags item det_ctx =
     (if rule_flags item AND (DE_STATE_FLAG_FULL_INSPECT OR DE_STATE_FLAG_SIG_CANT_MATCH) \<noteq> 0
      then (0, item, no_new_state det_ctx (rule_sid item))
      else
        (let s = sig_array de_ctx (rule_sid item) in
         case (if rule_nm item \<noteq> [] then
                 (case f_alstate f of
                    None \<Rightarrow> None
                  | Some alstate \<Rightarrow>
                      Some (continue_amatch de_ctx flags alproto alstate s (rule_nm item) 0 0))
               else Some ([], 0, 0)) of
           None \<Rightarrow> (- 1, item, det_ctx)
         | Some (sm, inspect_flags, total_matches) \<Rightarrow>
             (let full = (sm_amatch s \<noteq> [] \<and> total_matches > 0 \<and>
                          (sm = [] \<or> inspect_flags AND DE_STATE_FLAG_SIG_CANT_MATCH \<noteq> 0));
                  alert = (full \<and> sm = []);
                  inspect_flags1 = (if full then inspect_flags OR DE_STATE_FLAG_FULL_INSPECT
                                    else inspect_flags);
                  det_ctx1 = (if sm_amatch s \<noteq> [] then no_new_state det_ctx (rule_sid item)
                              else det_ctx);
                  det_ctx2 = (if alert
                              then alert_or_apply (det_ctx1\<lparr>postmatch := postmatch det_ctx1 @ [num s]\<rparr>)
                                     s 0 PACKET_ALERT_FLAG_STATE_MATCH
                              else det_ctx1)
              in (1, item\<lparr>rule_flags := rule_flags item OR inspect_flags1, rule_nm := sm\<rparr>,
                  det_ctx2))))"

text \<open>The call of \<open>DoInspectItem\<close> in the walk (lines 909-918) and the call of
  \<open>DoInspectFlowRule\<close> (lines 941-948), each followed by its entry in \<open>inspected\<close>.\<close>

definition DoInspectItem_logged ::
  "DetectEngineCtx \<Rightarrow> 8 word \<Rightarrow> 'w::len Flow \<Rightarrow> AppProto \<Rightarrow> 8 word \<Rightarrow> nat \<Rightarrow> nat \<Rightarrow> bool \<Rightarrow> bool
     \<Rightarrow> DeStateStoreItem \<Rightarrow> DetectEngineThreadCtx \<times> 16 word
     \<Rightarrow> int \<times> DeStateStoreItem \<times> DetectEngineThreadCtx \<times> 16 word" where
  "DoInspectItem_logged de_ctx dir_state_flags f alproto flags inspect_tx_id total_txs inprogress
       next_tx_no_progress item st =
     (case DoInspectItem de_ctx dir_state_flags f alproto flags inspect_tx_id total_txs inprogress
             next_tx_no_progress item st of
        (r, item', det_ctx', file_no_match') \<Rightarrow>
          (r, item',
           det_ctx'\<lparr>inspected := inspected det_ctx' @ [InspectItem inspect_tx_id (item_sid item) r]\<rparr>,
           file_no_match'))"

definition DoInspectFlowRule_logged ::
  "DetectEngineCtx \<Rightarrow> 8 word \<Rightarrow> 'w::len Flow \<Rightarrow> AppProto \<Rightarrow> 8 word \<Rightarrow> DeStateStoreFlowRule
     \<Rightarrow> DetectEngineThreadCtx \<Rightarrow> int \<times> DeStateStoreFlowRule \<times> DetectEngineThreadCtx" where
  "DoInspectFlowRule_logged de_ctx dir_state_flags f alproto flags rule det_ctx =
     (case DoInspectFlowRule de_ctx dir_state_flags f alproto flags rule det_ctx of
        (r, rule', det_ctx') \<Rightarrow>
          (r, rule', det_ctx'\<lparr>inspected := inspected det_ctx' @ [InspectFlowRule (rule_sid rule) r]\<rparr>))"

text \<open>Lines 891-899: whether the transaction after \<open>inspect_tx_id\<close> exists and has progress 0.\<close>

definition next_tx_dormant :: "'w::len AlState \<Rightarrow> 8 word \<Rightarrow> nat \<Rightarrow> nat \<Rightarrow> bool" where
  "next_tx_dormant alstate flags inspect_tx_id total_txs =
     (if \<not> TxIsLast inspect_tx_id total_txs then
        (case AppLayerParserGetTx alstate (inspect_tx_id + 1) of
           None \<Rightarrow> False
         | Some next_inspect_tx \<Rightarrow> tx_progress next_inspect_tx flags = 0)
      else False)"

text \<open>How a round of the loop over the transactions ends: it goes on to the next
  transaction, it leaves the loop by \<open>break\<close>, or it leaves the function by \<open>goto end\<close>.\<close>

datatype 'a ctl = Next 'a | Break 'a | End 'a

text \<open>The locals of the continue driver: \<open>file_no_match\<close> and \<open>state_cnt\<close>.\<close>

type_synonym 'w continue_locals = "DetectEngineThreadCtx \<times> 'w Flow \<times> 16 word \<times> nat"

text \<open>The write-back of the chunks the walk worked on, which in the source are the
  transaction's own.\<close>

definition set_tx_store ::
  "'w::len Flow \<Rightarrow> nat \<Rightarrow> 'w Tx \<Rightarrow> 'w DetectEngineState \<Rightarrow> nat \<Rightarrow> DeStateStoreItem list list \<Rightarrow> 'w Flow" where
  "set_tx_store f tx_id tx tx_de_state direction store' =
     set_tx f tx_id
       (tx\<lparr>detect_state :=
             Some (upd2 tx_de_state direction ((idx2 tx_de_state direction)\<lparr>head := store'\<rparr>))\<rparr>)"

text \<open>One round of the loop over the transactions (lines 869-927).\<close>

definition continue_tx ::
  "DetectEngineCtx \<Rightarrow> 8 word \<Rightarrow> AppProto \<Rightarrow> nat \<Rightarrow> nat \<Rightarrow> 'w::len continue_locals \<Rightarrow> 'w continue_locals ctl" where
  "continue_tx de_ctx flags alproto total_txs inspect_tx_id st =
     (case st of (det_ctx, f, file_no_match, state_cnt) \<Rightarrow>
      case f_alstate f of
        None \<Rightarrow> Next st
      | Some alstate \<Rightarrow>
      (case AppLayerParserGetTx alstate inspect_tx_id of
         None \<Rightarrow> Next st
       | Some inspect_tx \<Rightarrow>
         (let inspect_tx_inprogress =
                (tx_progress inspect_tx flags < GetStateProgressCompletionStatus f alproto flags)
          in case detect_state inspect_tx of
               None \<Rightarrow> Next st
             | Some tx_de_state \<Rightarrow>
                 (let tx_dir_state = idx2 tx_de_state (dir_index flags);
                      next_tx_no_progress = next_tx_dormant alstate flags inspect_tx_id total_txs
                  in case inspect_store
                            (DoInspectItem_logged de_ctx (dir_flags tx_dir_state) f alproto flags
                               inspect_tx_id total_txs inspect_tx_inprogress next_tx_no_progress)
                            (unat (cnt tx_dir_state)) (head tx_dir_state) 0 (det_ctx, file_no_match) of
                       (ab, store', state_cnt', det_ctx', file_no_match') \<Rightarrow>
                         (let st' = (det_ctx',
                                     set_tx_store f inspect_tx_id inspect_tx tx_de_state
                                       (dir_index flags) store',
                                     file_no_match', state_cnt')
                          in if ab then End st'
                             else if inspect_tx_inprogress then Break st'
                             else Next st')))))"

fun continue_txs ::
  "DetectEngineCtx \<Rightarrow> 8 word \<Rightarrow> AppProto \<Rightarrow> nat \<Rightarrow> nat list \<Rightarrow> 'w::len continue_locals
     \<Rightarrow> 'w continue_locals ctl" where
  "continue_txs de_ctx flags alproto total_txs [] st = Next st"
| "continue_txs de_ctx flags alproto total_txs (inspect_tx_id # ids) st =
     (case continue_tx de_ctx flags alproto total_txs inspect_tx_id st of
        Next st' \<Rightarrow> continue_txs de_ctx flags alproto total_txs ids st'
      | Break st' \<Rightarrow> Break st'
      | End st' \<Rightarrow> End st')"

text \<open>The second half (lines 931-952), entered with the \<open>state_cnt\<close> the first half left.\<close>

definition continue_flow ::
  "DetectEngineCtx \<Rightarrow> 8 word \<Rightarrow> AppProto \<Rightarrow> 16 word \<Rightarrow> 'w::len continue_locals
     \<Rightarrow> DetectEngineThreadCtx \<times> 'w Flow" where
  "continue_flow de_ctx flags alproto alversion st =
     (case st of (det_ctx, f, file_no_match, state_cnt) \<Rightarrow>
      case f_de_state f of
        None \<Rightarrow> (det_ctx, f)
      | Some de_state \<Rightarrow>
          (let dir_state = idx2 de_state (dir_index flags) in
           case inspect_store
                  (DoInspectFlowRule_logged de_ctx (dir_flags dir_state) f alproto flags)
                  (unat (cnt dir_state)) (head dir_state) state_cnt det_ctx of
             (ab, store', state_cnt', det_ctx') \<Rightarrow>
               (let f' = f\<lparr>f_de_state :=
                            Some (upd2 de_state (dir_index flags) (dir_state\<lparr>head := store'\<rparr>))\<rparr>
                in if ab then (det_ctx', f')
                   else (det_ctx', DeStateStoreStateVersion f' alversion flags))))"

definition DeStateDetectContinueDetection ::
  "DetectEngineCtx \<Rightarrow> DetectEngineThreadCtx \<Rightarrow> 'w::len Flow \<Rightarrow> 8 word \<Rightarrow> AppProto \<Rightarrow> 16 word
     \<Rightarrow> DetectEngineThreadCtx \<times> 'w Flow" where
  "DeStateDetectContinueDetection de_ctx det_ctx f flags alproto alversion =
     (if ProtocolSupportsTxs f alproto then
        (if \<not> StateIsValid alproto (f_alstate f) then (det_ctx, f)
         else case f_alstate f of
                None \<Rightarrow> (det_ctx, f)
              | Some alstate \<Rightarrow>
                  (case continue_txs de_ctx flags alproto (AppLayerParserGetTxCnt alstate)
                          [inspect_id f flags ..< AppLayerParserGetTxCnt alstate]
                          (det_ctx, f, 0, 0) of
                     Next st \<Rightarrow> continue_flow de_ctx flags alproto alversion st
                   | Break st \<Rightarrow> continue_flow de_ctx flags alproto alversion st
                   | End (det_ctx', f', file_no_match, state_cnt) \<Rightarrow> (det_ctx', f')))
      else continue_flow de_ctx flags alproto alversion (det_ctx, f, 0, 0))"

text \<open>
  The continue driver with its two inspectors as parameters: \<open>inspect_item\<close> stands where the
  source calls \<open>DoInspectItem\<close> (line 909) and \<open>inspect_rule\<close> where it calls
  \<open>DoInspectFlowRule\<close> (line 941), with the arguments the driver passes apart from \<open>de_ctx\<close>.
  Nothing else differs from the four definitions above, which are the instance at
  \<open>DoInspectItem de_ctx\<close> and \<open>DoInspectFlowRule de_ctx\<close>.  It shows what the driver does with
  a result of an inspector, whatever the inspector is: the callbacks of the source run on
  the flow's state in place, so the state an inspector finds need not be the one the driver
  looked at before the call.  The record of calls \<open>inspected\<close> is the driver's own: an entry is
  added to the record as it was before the call.
\<close>

type_synonym 'w item_inspector =
  "8 word \<Rightarrow> 'w Flow \<Rightarrow> AppProto \<Rightarrow> 8 word \<Rightarrow> nat \<Rightarrow> nat \<Rightarrow> bool \<Rightarrow> bool
     \<Rightarrow> DeStateStoreItem \<Rightarrow> DetectEngineThreadCtx \<times> 16 word
     \<Rightarrow> int \<times> DeStateStoreItem \<times> DetectEngineThreadCtx \<times> 16 word"

type_synonym 'w rule_inspector =
  "8 word \<Rightarrow> 'w Flow \<Rightarrow> AppProto \<Rightarrow> 8 word \<Rightarrow> DeStateStoreFlowRule
     \<Rightarrow> DetectEngineThreadCtx \<Rightarrow> int \<times> DeStateStoreFlowRule \<times> DetectEngineThreadCtx"

definition inspect_item_logged ::
  "'w::len item_inspector \<Rightarrow> 8 word \<Rightarrow> 'w Flow \<Rightarrow> AppProto \<Rightarrow> 8 word \<Rightarrow> nat \<Rightarrow> nat \<Rightarrow> bool \<Rightarrow> bool
     \<Rightarrow> DeStateStoreItem \<Rightarrow> DetectEngineThreadCtx \<times> 16 word
     \<Rightarrow> int \<times> DeStateStoreItem \<times> DetectEngineThreadCtx \<times> 16 word" where
  "inspect_item_logged inspect_item dir_state_flags f alproto flags inspect_tx_id total_txs
       inprogress next_tx_no_progress item st =
     (case inspect_item dir_state_flags f alproto flags inspect_tx_id total_txs inprogress
             next_tx_no_progress item st of
        (r, item', det_ctx', file_no_match') \<Rightarrow>
          (r, item',
           det_ctx'\<lparr>inspected := inspected (fst st) @ [InspectItem inspect_tx_id (item_sid item) r]\<rparr>,
           file_no_match'))"

definition inspect_rule_logged ::
  "'w::len rule_inspector \<Rightarrow> 8 word \<Rightarrow> 'w Flow \<Rightarrow> AppProto \<Rightarrow> 8 word \<Rightarrow> DeStateStoreFlowRule
     \<Rightarrow> DetectEngineThreadCtx \<Rightarrow> int \<times> DeStateStoreFlowRule \<times> DetectEngineThreadCtx" where
  "inspect_rule_logged inspect_rule dir_state_flags f alproto flags rule det_ctx =
     (case inspect_rule dir_state_flags f alproto flags rule det_ctx of
        (r, rule', det_ctx') \<Rightarrow>
          (r, rule', det_ctx'\<lparr>inspected := inspected det_ctx @ [InspectFlowRule (rule_sid rule) r]\<rparr>))"

definition continue_tx_with ::
  "'w::len item_inspector \<Rightarrow> 8 word \<Rightarrow> AppProto \<Rightarrow> nat \<Rightarrow> nat \<Rightarrow> 'w continue_locals
     \<Rightarrow> 'w continue_locals ctl" where
  "continue_tx_with inspect_item flags alproto total_txs inspect_tx_id st =
     (case st of (det_ctx, f, file_no_match, state_cnt) \<Rightarrow>
      case f_alstate f of
        None \<Rightarrow> Next st
      | Some alstate \<Rightarrow>
      (case AppLayerParserGetTx alstate inspect_tx_id of
         None \<Rightarrow> Next st
       | Some inspect_tx \<Rightarrow>
         (let inspect_tx_inprogress =
                (tx_progress inspect_tx flags < GetStateProgressCompletionStatus f alproto flags)
          in case detect_state inspect_tx of
               None \<Rightarrow> Next st
             | Some tx_de_state \<Rightarrow>
                 (let tx_dir_state = idx2 tx_de_state (dir_index flags);
                      next_tx_no_progress = next_tx_dormant alstate flags inspect_tx_id total_txs
                  in case inspect_store
                            (inspect_item_logged inspect_item (dir_flags tx_dir_state) f alproto flags
                               inspect_tx_id total_txs inspect_tx_inprogress next_tx_no_progress)
                            (unat (cnt tx_dir_state)) (head tx_dir_state) 0 (det_ctx, file_no_match) of
                       (ab, store', state_cnt', det_ctx', file_no_match') \<Rightarrow>
                         (let st' = (det_ctx',
                                     set_tx_store f inspect_tx_id inspect_tx tx_de_state
                                       (dir_index flags) store',
                                     file_no_match', state_cnt')
                          in if ab then End st'
                             else if inspect_tx_inprogress then Break st'
                             else Next st')))))"

fun continue_txs_with ::
  "'w::len item_inspector \<Rightarrow> 8 word \<Rightarrow> AppProto \<Rightarrow> nat \<Rightarrow> nat list \<Rightarrow> 'w continue_locals
     \<Rightarrow> 'w continue_locals ctl" where
  "continue_txs_with inspect_item flags alproto total_txs [] st = Next st"
| "continue_txs_with inspect_item flags alproto total_txs (inspect_tx_id # ids) st =
     (case continue_tx_with inspect_item flags alproto total_txs inspect_tx_id st of
        Next st' \<Rightarrow> continue_txs_with inspect_item flags alproto total_txs ids st'
      | Break st' \<Rightarrow> Break st'
      | End st' \<Rightarrow> End st')"

definition continue_flow_with ::
  "'w::len rule_inspector \<Rightarrow> 8 word \<Rightarrow> AppProto \<Rightarrow> 16 word \<Rightarrow> 'w continue_locals
     \<Rightarrow> DetectEngineThreadCtx \<times> 'w Flow" where
  "continue_flow_with inspect_rule flags alproto alversion st =
     (case st of (det_ctx, f, file_no_match, state_cnt) \<Rightarrow>
      case f_de_state f of
        None \<Rightarrow> (det_ctx, f)
      | Some de_state \<Rightarrow>
          (let dir_state = idx2 de_state (dir_index flags) in
           case inspect_store
                  (inspect_rule_logged inspect_rule (dir_flags dir_state) f alproto flags)
                  (unat (cnt dir_state)) (head dir_state) state_cnt det_ctx of
             (ab, store', state_cnt', det_ctx') \<Rightarrow>
               (let f' = f\<lparr>f_de_state :=
                            Some (upd2 de_state (dir_index flags) (dir_state\<lparr>head := store'\<rparr>))\<rparr>
                in if ab then (det_ctx', f')
                   else (det_ctx', DeStateStoreStateVersion f' alversion flags))))"

definition DeStateDetectContinueDetection_with ::
  "'w::len item_inspector \<Rightarrow> 'w rule_inspector \<Rightarrow> DetectEngineThreadCtx \<Rightarrow> 'w Flow \<Rightarrow> 8 word
     \<Rightarrow> AppProto \<Rightarrow> 16 word \<Rightarrow> DetectEngineThreadCtx \<times> 'w Flow" where
  "DeStateDetectContinueDetection_with inspect_item inspect_rule det_ctx f flags alproto alversion =
     (if ProtocolSupportsTxs f alproto then
        (if \<not> StateIsValid alproto (f_alstate f) then (det_ctx, f)
         else case f_alstate f of
                None \<Rightarrow> (det_ctx, f)
              | Some alstate \<Rightarrow>
                  (case continue_txs_with inspect_item flags alproto (AppLayerParserGetTxCnt alstate)
                          [inspect_id f flags ..< AppLayerParserGetTxCnt alstate]
                          (det_ctx, f, 0, 0) of
                     Next st \<Rightarrow> continue_flow_with inspect_rule flags alproto alversion st
                   | Break st \<Rightarrow> continue_flow_with inspect_rule flags alproto alversion st
                   | End (det_ctx', f', file_no_match, state_cnt) \<Rightarrow> (det_ctx', f')))
      else continue_flow_with inspect_rule flags alproto alversion (det_ctx, f, 0, 0))"

section \<open>Reset\<close>

definition DetectEngineStateReset ::
  "'w::len DetectEngineStateFlow option \<Rightarrow> 8 word \<Rightarrow> 'w DetectEngineStateFlow option" where
  "DetectEngineStateReset state direction =
     (case state of
        None \<Rightarrow> None
      | Some st \<Rightarrow>
          (let st1 = (if direction AND STREAM_TOSERVER \<noteq> 0
                      then upd2 st 0 ((idx2 st 0)\<lparr>cnt := 0, dir_flags := 0\<rparr>) else st);
               st2 = (if direction AND STREAM_TOCLIENT \<noteq> 0
                      then upd2 st1 1 ((idx2 st1 1)\<lparr>cnt := 0, dir_flags := 0\<rparr>) else st1)
           in Some st2))"

section \<open>Concrete inputs\<close>

text \<open>An empty detection context, an allocator that never fails, and an engine table with
  one engine in each direction: it consumes list 0 and reports a match on a transaction
  whose data is 1, a definite non-match on data 2 and "not yet" otherwise.\<close>

definition det_ctx0 :: DetectEngineThreadCtx where
  "det_ctx0 = \<lparr>alerts = [], actions = [], postmatch = [], files_disabled = [],
               de_state_sig_array = (\<lambda>_. DE_STATE_MATCH_HAS_NEW_STATE), inspected = []\<rparr>"

definition heap_ok :: Heap where
  "heap_ok = \<lparr>tx_state_alloc_ok = (\<lambda>_. True), set_tx_state_ok = (\<lambda>_. True),
              tx_chunk_alloc_ok = (\<lambda>_. True), flow_state_alloc_ok = True,
              flow_chunk_alloc_ok = True\<rparr>"

definition uri_engine :: DetectEngineAppInspectionEngine where
  "uri_engine = \<lparr>engine_sm_list = 0, engine_inspect_flags = DE_STATE_FLAG_URI_INSPECT,
                 engine_Callback = (\<lambda>s flags al tx tx_id.
                    if tx = 1 then DETECT_ENGINE_INSPECT_SIG_MATCH
                    else if tx = 2 then DETECT_ENGINE_INSPECT_SIG_CANT_MATCH
                    else DETECT_ENGINE_INSPECT_SIG_NO_MATCH)\<rparr>"

text \<open>Signature \<open>n\<close> has list 0 and, for \<open>amatch\<close>, a flow-scoped list of one submatch.\<close>

definition sig_uri :: "nat \<Rightarrow> bool \<Rightarrow> Signature" where
  "sig_uri n amatch = \<lparr>num = n, sig_flags = 0, sm_lists = (\<lambda>l. l = 0),
                        sm_amatch = (if amatch then [\<lparr>sm_type = 0\<rparr>] else [])\<rparr>"

text \<open>The submatch of type 0 matches once the application-layer data is 1.\<close>

definition de_ctx0 :: DetectEngineCtx where
  "de_ctx0 = \<lparr>sig_array = (\<lambda>n. sig_uri n (n = 7)),
              app_inspection_engine = (\<lambda>alproto direction. [uri_engine]),
              AppLayerMatch = (\<lambda>t. if t = 0 then Some (\<lambda>flags al s sm. if al = 1 then 1 else 0)
                                     else None),
              DetectEngineInspectDcePayload = (\<lambda>s flags al. 0),
              sgh_filestore_cnt = 1\<rparr>"

text \<open>A direction holding one record in its first chunk.\<close>

definition one_record :: "'i \<Rightarrow> 'i \<Rightarrow> ('i, 'w::len) DirState" where
  "one_record r z = \<lparr>head = [r # replicate 14 z], cnt = 1, filestore_cnt = 0, dir_flags = 0\<rparr>"

text \<open>A transaction with data \<open>d\<close>, progress \<open>p\<close> in both directions and detect state \<open>st\<close>;
  an HTTP flow with the transactions \<open>ts\<close>, where a transaction is complete at progress 1.\<close>

definition tx_of :: "nat \<Rightarrow> int \<Rightarrow> 16 DetectEngineState option \<Rightarrow> 16 Tx" where
  "tx_of d p st = \<lparr>tx_data = d, tx_progress = (\<lambda>_. p), detect_state = st\<rparr>"

definition http_flow :: "16 Tx option list \<Rightarrow> 16 DetectEngineStateFlow option \<Rightarrow> 16 Flow" where
  "http_flow ts st =
     \<lparr>f_alproto = ALPROTO_HTTP,
      f_alstate = Some \<lparr>conn = True, dcerpc_present = False, al_data = 0, txs = ts\<rparr>,
      f_de_state = st, f_detect_alversion = (0, 0), inspect_id = (\<lambda>_. 0),
      ProtocolSupportsTxs = (\<lambda>_. True), SupportsTxDetectState = (\<lambda>_. True),
      GetStateProgressCompletionStatus = (\<lambda>_ _. 1)\<rparr>"

text \<open>A flow of a protocol without transactions and without application-layer state.\<close>

definition bare_flow :: "16 DetectEngineStateFlow option \<Rightarrow> 16 Flow" where
  "bare_flow st =
     \<lparr>f_alproto = ALPROTO_OTHER 0, f_alstate = None, f_de_state = st,
      f_detect_alversion = (0, 0), inspect_id = (\<lambda>_. 0),
      ProtocolSupportsTxs = (\<lambda>_. False), SupportsTxDetectState = (\<lambda>_. False),
      GetStateProgressCompletionStatus = (\<lambda>_ _. 1)\<rparr>"

text \<open>A stored transactional record of signature 1 that is fully inspected, and a stored
  flow rule of signature 7 that waits at its submatch.\<close>

definition item1 :: DeStateStoreItem where
  "item1 = \<lparr>item_sid = 1, item_flags = DE_STATE_FLAG_URI_INSPECT OR DE_STATE_FLAG_FULL_INSPECT\<rparr>"

definition rule7 :: DeStateStoreFlowRule where
  "rule7 = \<lparr>rule_sid = 7, rule_flags = 0, rule_nm = [\<lparr>sm_type = 0\<rparr>]\<rparr>"

text \<open>
  The spec's condition for "there is stored state" (section 4.4): (a) the \<open>FlowState\<close> has
  records in this direction, or (b) a transaction from the current inspect-id onward has a
  non-empty \<open>TxState\<close> in this direction; the code looks at the transactions only when the
  protocol has transactions and its state is valid.
\<close>

definition tx_has_sigs :: "'w::len AlState \<Rightarrow> 8 word \<Rightarrow> nat \<Rightarrow> bool" where
  "tx_has_sigs alstate flags tx_id =
     (case txs alstate ! tx_id of
        None \<Rightarrow> False
      | Some tx \<Rightarrow>
          (case detect_state tx of
             None \<Rightarrow> False
           | Some tx_de_state \<Rightarrow> cnt (idx2 tx_de_state (dir_index flags)) \<noteq> 0))"

definition stored_sigs :: "'w::len Flow \<Rightarrow> 8 word \<Rightarrow> bool" where
  "stored_sigs f flags =
     ((case f_de_state f of
         None \<Rightarrow> False
       | Some de_state \<Rightarrow> cnt (idx2 de_state (dir_index flags)) \<noteq> 0) \<or>
      (ProtocolSupportsTxs f (f_alproto f) \<and> StateIsValid (f_alproto f) (f_alstate f) \<and>
       (case f_alstate f of
          None \<Rightarrow> False
        | Some alstate \<Rightarrow>
            (\<exists>tx_id \<in> set [inspect_id f flags ..< length (txs alstate)].
               tx_has_sigs alstate flags tx_id))))"

text \<open>The result \<open>r\<close> of a recorded inspector call.\<close>

definition insp_result :: "inspection \<Rightarrow> int" where
  "insp_result e = (case e of InspectItem tx_id sid' r \<Rightarrow> r | InspectFlowRule sid' r \<Rightarrow> r)"

text \<open>A stretch of recorded calls as a walk leaves it: if the walk ended in \<open>goto end\<close>, the
  last call returned a negative result and no earlier one did; otherwise none did.\<close>

definition walk_log :: "bool \<Rightarrow> inspection list \<Rightarrow> bool" where
  "walk_log ab new =
     (if ab then new \<noteq> [] \<and> list_all (\<lambda>e. 0 \<le> insp_result e) (butlast new) \<and>
                 insp_result (last new) < 0
      else list_all (\<lambda>e. 0 \<le> insp_result e) new)"

definition ctl_state :: "'a ctl \<Rightarrow> 'a" where
  "ctl_state c = (case c of Next s \<Rightarrow> s | Break s \<Rightarrow> s | End s \<Rightarrow> s)"

definition ctl_end :: "'a ctl \<Rightarrow> bool" where
  "ctl_end c = (case c of Next s \<Rightarrow> False | Break s \<Rightarrow> False | End s \<Rightarrow> True)"

text \<open>A store of flow rules with two waiting rules.\<close>

definition two_rules :: "16 DetectEngineStateDirectionFlow" where
  "two_rules = \<lparr>head = [rule7 # rule7\<lparr>rule_sid := 8\<rparr> # replicate 13 zero_rule], cnt = 2,
                filestore_cnt = 0, dir_flags = 0\<rparr>"

text \<open>
  A store of a transaction with two records not inspected yet; an HTTP flow with two
  transactions that hold records and with waiting flow rules; and \<open>DoInspectItem\<close> as it runs
  when the application-layer state is gone by the time it is called.
\<close>

definition two_items :: "16 DetectEngineStateDirection" where
  "two_items = \<lparr>head = [\<lparr>item_sid = 1, item_flags = 0\<rparr> # \<lparr>item_sid = 2, item_flags = 0\<rparr> #
                        replicate 13 zero_item],
                cnt = 2, filestore_cnt = 0, dir_flags = 0\<rparr>"

definition two_tx_flow :: "16 Flow" where
  "two_tx_flow =
     http_flow [Some (tx_of 0 1 (Some (two_items, empty_dir))),
                Some (tx_of 0 1 (Some (one_record \<lparr>item_sid = 1, item_flags = 0\<rparr> zero_item, empty_dir)))]
               (Some (two_rules, empty_dir))"

definition DoInspectItem_state_gone :: "DetectEngineCtx \<Rightarrow> 'w::len item_inspector" where
  "DoInspectItem_state_gone de_ctx dir_state_flags f =
     DoInspectItem de_ctx dir_state_flags (f\<lparr>f_alstate := None\<rparr>)"

text \<open>
  The conditions of the re-open tests of \<open>DoInspectItem\<close> on the packet and the direction
  state: the packet's flags carry the direction and the direction state announces a new
  file for it (lines 630-631 and 637-638, again in 656-658 and 662-664).
\<close>

definition ts_new_file :: "8 word \<Rightarrow> 8 word \<Rightarrow> bool" where
  "ts_new_file flags dir_state_flags =
     (flags AND STREAM_TOSERVER \<noteq> 0 \<and>
      dir_state_flags AND DETECT_ENGINE_STATE_FLAG_FILE_TS_NEW \<noteq> 0)"

definition tc_new_file :: "8 word \<Rightarrow> 8 word \<Rightarrow> bool" where
  "tc_new_file flags dir_state_flags =
     (flags AND STREAM_TOCLIENT \<noteq> 0 \<and>
      dir_state_flags AND DETECT_ENGINE_STATE_FLAG_FILE_TC_NEW \<noteq> 0)"

text \<open>The flags of a record when the two re-open blocks of \<open>DoInspectItem\<close> are through
  (line 675, or the \<open>return 0\<close> of either block).\<close>

definition reopened_flags :: "32 word \<Rightarrow> 8 word \<Rightarrow> 8 word \<Rightarrow> 32 word" where
  "reopened_flags item_fl flags dir_state_flags =
     (let fl1 = (if item_fl AND DE_STATE_FLAG_FULL_INSPECT \<noteq> 0
                 then reopen_full_inspect item_fl flags dir_state_flags else item_fl)
      in if fl1 AND DE_STATE_FLAG_FULL_INSPECT \<noteq> 0 then fl1
         else if fl1 AND DE_STATE_FLAG_SIG_CANT_MATCH \<noteq> 0 then
           (case reopen_cant_match fl1 flags dir_state_flags of None \<Rightarrow> fl1 | Some fl2 \<Rightarrow> fl2)
         else fl1)"


text \<open>The transaction \<open>tx_id\<close> of a flow, as \<open>AppLayerParserGetTx\<close> on \<open>FlowGetAppState\<close> gives it.\<close>

definition flow_tx :: "'w::len Flow \<Rightarrow> nat \<Rightarrow> 'w Tx option" where
  "flow_tx f tx_id =
     (case f_alstate f of None \<Rightarrow> None | Some alstate \<Rightarrow> AppLayerParserGetTx alstate tx_id)"




text \<open>The stored records of transaction \<open>tx_id\<close> for the direction slot \<open>i\<close>, as the walk of
  the continue driver reads them; none when the transaction or its detect state is
  missing.\<close>

definition tx_records :: "'w::len Flow \<Rightarrow> nat \<Rightarrow> nat \<Rightarrow> DeStateStoreItem list" where
  "tx_records f tx_id i =
     (case flow_tx f tx_id of
        None \<Rightarrow> []
      | Some tx \<Rightarrow>
          (case detect_state tx of
             None \<Rightarrow> []
           | Some tx_de_state \<Rightarrow> DirStateIter (idx2 tx_de_state i)))"





section \<open>What the start driver persists\<close>

text \<open>A direction's store that the append can work on: full-size chunks, enough for
  \<open>cnt\<close>.  The appends keep it and the resets do not break it.\<close>

definition store_wf :: "('i, 'w::len) DirState \<Rightarrow> bool" where
  "store_wf ds =
     ((\<forall>c \<in> set (head ds). length c = DE_STATE_CHUNK_SIZE) \<and>
      (unat (cnt ds) + 14) div DE_STATE_CHUNK_SIZE \<le> length (head ds))"

text \<open>The counter of a direction's store has room for one more record: \<open>cnt++\<close> does not
  wrap around.\<close>

definition store_room :: "('i, 'w::len) DirState \<Rightarrow> bool" where
  "store_room ds = (unat (cnt ds) + 1 < 2 ^ LENGTH('w))"

text \<open>The flow as the parser and the callbacks see it: without the detect states, the
  flow's own detect state and the stored versions, which are all the start driver
  writes.\<close>

definition parser_view :: "'w::len Flow \<Rightarrow> 'w Flow" where
  "parser_view f =
     f\<lparr>f_alstate :=
          map_option (\<lambda>alstate. alstate\<lparr>txs := map (map_option (\<lambda>tx. tx\<lparr>detect_state := None\<rparr>))
                                                     (txs alstate)\<rparr>) (f_alstate f),
       f_de_state := None, f_detect_alversion := (0, 0)\<rparr>"

text \<open>The store of a transaction for the slot \<open>i\<close> as \<open>StoreStateTx\<close> finds it: that of its
  detect state, or the empty one of a detect state it has yet to allocate.\<close>

definition tx_store :: "'w::len Tx \<Rightarrow> nat \<Rightarrow> 'w DetectEngineStateDirection" where
  "tx_store tx i = (case detect_state tx of None \<Rightarrow> empty_dir | Some tx_de_state \<Rightarrow> idx2 tx_de_state i)"

text \<open>
  What \<open>StoreStateTx\<close> needs to get a record into the store of transaction \<open>tx_id\<close>
  (lines 402-416 and 134-155): the protocol supports a detect state per transaction, the
  detect state is there or its allocation succeeds, and the chunk for the slot is there or
  its allocation succeeds.
\<close>

definition can_store :: "Heap \<Rightarrow> 'w::len Flow \<Rightarrow> nat \<Rightarrow> 'w Tx \<Rightarrow> nat \<Rightarrow> bool" where
  "can_store heap f tx_id tx i =
     (SupportsTxDetectState f (f_alproto f) \<and>
      (detect_state tx = None \<longrightarrow> tx_state_alloc_ok heap tx_id) \<and>
      (append_allocates (tx_store tx i) \<longrightarrow> tx_chunk_alloc_ok heap tx_id))"

text \<open>
  The spec's "all engines that had an sm_list were visited and all matched": the
  signature has the list of at least one engine of the table, and every engine whose list
  it has reports a match on the transaction.
\<close>

definition engines_all_match ::
  "Signature \<Rightarrow> 8 word \<Rightarrow> nat \<Rightarrow> nat \<Rightarrow> nat \<Rightarrow> DetectEngineAppInspectionEngine list \<Rightarrow> bool" where
  "engines_all_match s flags al tx tx_id engines =
     ((\<exists>engine \<in> set engines. sm_list_set s (engine_sm_list engine)) \<and>
      (\<forall>engine \<in> set engines. sm_list_set s (engine_sm_list engine) \<longrightarrow>
         engine_Callback engine s flags al tx tx_id = DETECT_ENGINE_INSPECT_SIG_MATCH))"

text \<open>\<open>inspect_flags\<close> as the engine loop of the start driver leaves it for a transaction.\<close>

definition start_inspect_flags ::
  "DetectEngineCtx \<Rightarrow> Signature \<Rightarrow> 8 word \<Rightarrow> AppProto \<Rightarrow> 'w::len AlState \<Rightarrow> 'w Tx \<Rightarrow> nat \<Rightarrow> 32 word" where
  "start_inspect_flags de_ctx s flags alproto alstate tx tx_id =
     fst (snd (start_engines s flags (al_data alstate) (tx_data tx) tx_id
                 (app_inspection_engine de_ctx alproto (dir_index flags)) 0 0 0))"

text \<open>
  The spec's persist decision for a transaction: there was a decision (full match, or
  \<open>CANT_MATCH\<close> set), and the transaction is not the last one or not yet fully progressed.
\<close>

definition persist_decision ::
  "DetectEngineCtx \<Rightarrow> Signature \<Rightarrow> 8 word \<Rightarrow> AppProto \<Rightarrow> 'w::len Flow \<Rightarrow> 'w AlState \<Rightarrow> 'w Tx \<Rightarrow> nat \<Rightarrow> bool" where
  "persist_decision de_ctx s flags alproto f alstate tx tx_id =
     ((engines_all_match s flags (al_data alstate) (tx_data tx) tx_id
         (app_inspection_engine de_ctx alproto (dir_index flags)) \<or>
       start_inspect_flags de_ctx s flags alproto alstate tx tx_id
         AND DE_STATE_FLAG_SIG_CANT_MATCH \<noteq> 0) \<and>
      (\<not> TxIsLast tx_id (length (txs alstate)) \<or>
       tx_progress tx flags < GetStateProgressCompletionStatus f alproto flags))"

text \<open>What the start driver appends to the store of a transaction: one record with the
  flags of the engine loop and \<open>FULL_INSPECT\<close> when the persist decision holds and the store
  can take it, nothing otherwise.\<close>

definition persisted_record ::
  "DetectEngineCtx \<Rightarrow> Heap \<Rightarrow> Signature \<Rightarrow> 8 word \<Rightarrow> AppProto \<Rightarrow> 'w::len Flow \<Rightarrow> 'w AlState \<Rightarrow> 'w Tx \<Rightarrow> nat
     \<Rightarrow> DeStateStoreItem list" where
  "persisted_record de_ctx heap s flags alproto f alstate tx tx_id =
     (if persist_decision de_ctx s flags alproto f alstate tx tx_id \<and>
         can_store heap f tx_id tx (dir_index flags)
      then [\<lparr>item_sid = num s,
             item_flags = start_inspect_flags de_ctx s flags alproto alstate tx tx_id
                            OR DE_STATE_FLAG_FULL_INSPECT\<rparr>]
      else [])"

text \<open>An HTTP flow with one transaction in progress (progress 0) whose data is \<open>d\<close>, and the
  allocator whose \<open>DetectEngineStateAlloc\<close> fails.\<close>

definition one_tx_flow :: "nat \<Rightarrow> 16 Flow" where
  "one_tx_flow d = http_flow [Some (tx_of d 0 None)] None"

definition heap_no_state :: Heap where
  "heap_no_state = heap_ok\<lparr>tx_state_alloc_ok := (\<lambda>_. False)\<rparr>"

text \<open>The records of transaction 0, slot 0, after the start driver has run for signature 1
  on the flow \<open>f\<close>; \<open>None\<close> if the call died.\<close>

definition start_records :: "Heap \<Rightarrow> 16 Flow \<Rightarrow> DeStateStoreItem list option" where
  "start_records heap f =
     (case DeStateDetectStartDetection de_ctx0 heap det_ctx0 (sig_uri 1 False) f STREAM_TOSERVER
             ALPROTO_HTTP 1 of
        Inl e \<Rightarrow> None
      | Inr (r, det_ctx', f') \<Rightarrow> Some (tx_records f' 0 0))"

text \<open>The flow's own store for the slot \<open>j\<close>, empty while the flow has no detect state.\<close>

definition flow_store :: "'w::len Flow \<Rightarrow> nat \<Rightarrow> 'w DetectEngineStateDirectionFlow" where
  "flow_store f j = (case f_de_state f of None \<Rightarrow> empty_dir | Some de_state \<Rightarrow> idx2 de_state j)"

text \<open>All a flow holds for the slot \<open>j\<close>, seen from the transaction \<open>t\<close>: the store of the
  transaction for the slot (\<open>None\<close> when the parser has no such transaction), the flow's own
  store for the slot, and the stored version \<open>f->detect_alversion[j]\<close>.\<close>

definition slot_view ::
  "'w::len Flow \<Rightarrow> nat \<Rightarrow> nat
     \<Rightarrow> 'w DetectEngineStateDirection option \<times> 'w DetectEngineStateDirectionFlow \<times> 16 word" where
  "slot_view f j t =
     (map_option (\<lambda>tx. tx_store tx j) (flow_tx f t), flow_store f j, idx2 (f_detect_alversion f) j)"

text \<open>A detect state and an HTTP flow with records in slot 0 only: the flow has one
  transaction in progress, with data 2 and one stored record, and one stored flow rule.\<close>

definition slot0_state :: "16 DetectEngineState" where
  "slot0_state = (one_record item1 zero_item, empty_dir)"

definition slot0_flow :: "16 Flow" where
  "slot0_flow = http_flow [Some (tx_of 2 0 (Some slot0_state))] (Some (one_record rule7 zero_rule, empty_dir))"












text \<open>
  The calls of the continue driver for the packets that deliver the rest of the stream.
  \<open>ws\<close> are the flows as the parser has them at these packets, one after the other; each
  call finds the flow's detect state as the call before left it.
\<close>

fun continue_all ::
  "DetectEngineCtx \<Rightarrow> DetectEngineThreadCtx \<Rightarrow> 'w::len DetectEngineStateFlow option \<Rightarrow> 'w Flow list
     \<Rightarrow> 8 word \<Rightarrow> AppProto \<Rightarrow> 16 word
     \<Rightarrow> DetectEngineThreadCtx \<times> 'w DetectEngineStateFlow option" where
  "continue_all de_ctx det_ctx st [] flags alproto alversion = (det_ctx, st)"
| "continue_all de_ctx det_ctx st (w # ws) flags alproto alversion =
     (case DeStateDetectContinueDetection de_ctx det_ctx (w\<lparr>f_de_state := st\<rparr>) flags alproto
             alversion of
        (det_ctx', f') \<Rightarrow> continue_all de_ctx det_ctx' (f_de_state f') ws flags alproto alversion)"

text \<open>
  The alerts of a split run: the start driver on the flow \<open>f\<close> as the parser has it after
  the prefix, then the continue driver at each of the flows \<open>ws\<close>.  And the alerts of the
  start driver run once on a flow \<open>w\<close>.  \<open>None\<close> if the start driver died.
\<close>

definition split_run ::
  "DetectEngineCtx \<Rightarrow> Heap \<Rightarrow> DetectEngineThreadCtx \<Rightarrow> Signature \<Rightarrow> 'w::len Flow \<Rightarrow> 'w Flow list
     \<Rightarrow> 8 word \<Rightarrow> AppProto \<Rightarrow> 16 word \<Rightarrow> 16 word \<Rightarrow> PacketAlert list option" where
  "split_run de_ctx heap det_ctx s f ws flags alproto alversion alversion2 =
     (case DeStateDetectStartDetection de_ctx heap det_ctx s f flags alproto alversion of
        Inl e \<Rightarrow> None
      | Inr (r, det_ctx', f') \<Rightarrow>
          Some (alerts (fst (continue_all de_ctx det_ctx' (f_de_state f') ws flags alproto
                               alversion2))))"

definition whole_run ::
  "DetectEngineCtx \<Rightarrow> Heap \<Rightarrow> DetectEngineThreadCtx \<Rightarrow> Signature \<Rightarrow> 'w::len Flow \<Rightarrow> 8 word
     \<Rightarrow> AppProto \<Rightarrow> 16 word \<Rightarrow> PacketAlert list option" where
  "whole_run de_ctx heap det_ctx s w flags alproto alversion =
     (case DeStateDetectStartDetection de_ctx heap det_ctx s w flags alproto alversion of
        Inl e \<Rightarrow> None
      | Inr (r, det_ctx', f') \<Rightarrow> Some (alerts det_ctx'))"





text \<open>
  A signature whose only list is a flow-scoped list of two submatches; the submatch of type
  \<open>t\<close> matches once the application-layer data exceeds \<open>t\<close>, and the submatch of type 9
  answers that it cannot match; an HTTP flow with one transaction and the
  application-layer data \<open>d\<close>.
\<close>

definition sig_amatch :: "nat \<Rightarrow> nat \<Rightarrow> Signature" where
  "sig_amatch n t = \<lparr>num = n, sig_flags = 0, sm_lists = (\<lambda>l. False),
                      sm_amatch = [\<lparr>sm_type = 0\<rparr>, \<lparr>sm_type = t\<rparr>]\<rparr>"

definition de_ctx_amatch :: "nat \<Rightarrow> DetectEngineCtx" where
  "de_ctx_amatch t =
     \<lparr>sig_array = (\<lambda>n. sig_amatch n t),
      app_inspection_engine = (\<lambda>alproto direction. [uri_engine]),
      AppLayerMatch = (\<lambda>t. Some (\<lambda>flags al s sm. if t = 9 then 2 else if t < al then 1 else 0)),
      DetectEngineInspectDcePayload = (\<lambda>s flags al. 0),
      sgh_filestore_cnt = 1\<rparr>"

definition amatch_flow :: "nat \<Rightarrow> 16 Flow" where
  "amatch_flow d =
     (http_flow [Some (tx_of 0 1 None)] None)
       \<lparr>f_alstate := Some \<lparr>conn = True, dcerpc_present = False, al_data = d,
                            txs = [Some (tx_of 0 1 None)]\<rparr>\<rparr>"

text \<open>What a sequence of appends on an empty state with a 16-bit \<open>SigIntId\<close> leaves in slot 0:
  the records the walk yields and \<open>cnt\<close>; \<open>None\<close> if a call died.\<close>

definition iter_after ::
  "(Signature \<times> 32 word \<times> bool) list \<Rightarrow> (DeStateStoreItem list \<times> 16 word) option" where
  "iter_after ops =
     (case append_all (empty_dir, empty_dir) STREAM_TOSERVER ops of
        Inl e \<Rightarrow> None
      | Inr state \<Rightarrow> Some (DirStateIter (idx2 state 0), cnt (idx2 state 0)))"

section \<open>Properties\<close>

subsection \<open>The chunked store\<close>

lemma inspect_slots_read:
  "inspect_slots (\<lambda>item acc. (1, item, acc @ [item])) c xs n acc
     = (False, xs, n + min (length xs) (c - n), acc @ take (c - n) xs)"
proof (induction xs arbitrary: n acc)
  case Nil then show ?case by simp
next
  case (Cons x xs)
  show ?case
  proof (cases "n < c")
    case True
    then have "c - n = Suc (c - (n + 1))" by arith
    with True show ?thesis by (simp add: Cons.IH)
  next
    case False then show ?thesis by simp
  qed
qed

lemma inspect_store_read:
  "inspect_store (\<lambda>item acc. (1, item, acc @ [item])) c cs n acc
     = (False, cs, n + min (length (concat cs)) (c - n), acc @ take (c - n) (concat cs))"
proof (induction cs arbitrary: n acc)
  case Nil then show ?case by simp
next
  case (Cons x cs)
  have a: "c - (n + min (length x) (c - n)) = c - n - length x" by arith
  have b: "n + min (length x) (c - n) + min (length (concat cs)) (c - n - length x)
            = n + min (length x + length (concat cs)) (c - n)" by arith
  show ?case
    by (simp add: inspect_slots_read Cons.IH a b) 
qed

lemma DirStateIter_take: "DirStateIter ds = take (unat (cnt ds)) (concat (head ds))"
  by (simp add: DirStateIter_def inspect_store_read)

lemma concat_update_uniform:
  "\<forall>c \<in> set cs. length c = n \<Longrightarrow> k < length cs \<Longrightarrow> i < n \<Longrightarrow>
     concat (cs[k := (cs ! k)[i := r]]) = (concat cs)[k * n + i := r]"
proof (induction cs arbitrary: k)
  case Nil then show ?case by simp
next
  case (Cons c cs)
  show ?case
  proof (cases k)
    case 0
    with Cons.prems show ?thesis by (simp add: list_update_append)
  next
    case (Suc j)
    with Cons.prems have "concat (cs[j := (cs ! j)[i := r]]) = (concat cs)[j * n + i := r]"
      by (intro Cons.IH) auto
    with Suc Cons.prems show ?thesis by (simp add: list_update_append)
  qed
qed

lemma length_concat_uniform:
  "\<forall>c \<in> set cs. length c = n \<Longrightarrow> length (concat cs) = length cs * n"
  by (induction cs) auto

lemma nth_concat_uniform:
  "\<forall>c \<in> set cs. length c = n \<Longrightarrow> j < length cs * n \<Longrightarrow>
     concat cs ! j = cs ! (j div n) ! (j mod n)"
proof (induction cs arbitrary: j)
  case Nil then show ?case by simp
next
  case (Cons c cs)
  have n0: "0 < n" using Cons.prems by (cases n) auto
  show ?case
  proof (cases "j < n")
    case True
    with Cons.prems show ?thesis by (simp add: nth_append)
  next
    case False
    then have jn: "n \<le> j" by simp
    have d: "j div n = Suc ((j - n) div n)" using jn n0
      by (simp add: le_div_geq)
    have m: "j mod n = (j - n) mod n" using jn by (simp add: le_mod_geq)
    have "concat cs ! (j - n) = cs ! ((j - n) div n) ! ((j - n) mod n)"
      using Cons.prems jn by (intro Cons.IH) auto
    with False Cons.prems d m show ?thesis by (simp add: nth_append)
  qed
qed

lemma store_inv_empty: "store_inv empty_dir []"
  by (simp add: store_inv_def empty_dir_def DE_STATE_CHUNK_SIZE_def)

lemma unat_cnt_Suc:
  fixes c :: "'w::len word"
  assumes "unat c + 1 < 2 ^ LENGTH('w)"
  shows "unat (c + 1) = unat c + 1"
proof -
  have "unat (c + 1) = (unat c + unat (1 :: 'w word)) mod 2 ^ LENGTH('w)"
    by (simp only: unat_word_ariths)
  also have "\<dots> = (unat c + 1) mod 2 ^ LENGTH('w)" by simp
  also have "\<dots> = unat c + 1" using assms by simp
  finally show ?thesis .
qed

lemma store_write_inv:
  fixes ds :: "('i, 'w::len) DirState"
  assumes u: "\<forall>c \<in> set (head ds). length c = DE_STATE_CHUNK_SIZE"
    and k: "unat (cnt ds) div DE_STATE_CHUNK_SIZE < length (head ds)"
    and t: "take (unat (cnt ds)) (concat (head ds)) = recs"
    and l: "unat (cnt ds) = length recs"
    and room: "length recs + 1 < 2 ^ LENGTH('w)"
  shows "store_inv (store_write ds (unat (cnt ds) div DE_STATE_CHUNK_SIZE) r) (recs @ [r])"
proof -
  let ?n = "unat (cnt ds)" and ?cs = "head ds"
  let ?k = "?n div DE_STATE_CHUNK_SIZE" and ?i = "?n mod DE_STATE_CHUNK_SIZE"
  let ?cs' = "?cs[?k := (?cs ! ?k)[?i := r]]"
  have i: "?i < DE_STATE_CHUNK_SIZE" by (simp add: DE_STATE_CHUNK_SIZE_def)
  have flat: "concat ?cs' = (concat ?cs)[?n := r]"
    using concat_update_uniform [OF u k i, of r] by simp
  have lc: "length (concat ?cs) = length ?cs * DE_STATE_CHUNK_SIZE"
    by (rule length_concat_uniform [OF u])
  have "?n < length ?cs * DE_STATE_CHUNK_SIZE"
    using k unfolding DE_STATE_CHUNK_SIZE_def by arith
  then have nlt: "?n < length (concat ?cs)" using lc by simp
  have tk: "take (Suc ?n) ((concat ?cs)[?n := r]) = recs @ [r]"
    using nlt t by (simp add: take_Suc_conv_app_nth)
  have u': "\<forall>c \<in> set ?cs'. length c = DE_STATE_CHUNK_SIZE"
    using u k by (auto simp: set_conv_nth nth_list_update)
  have c1: "(?n + 1 + 14) div DE_STATE_CHUNK_SIZE \<le> length ?cs"
    using k unfolding DE_STATE_CHUNK_SIZE_def by arith
  have su: "unat (cnt ds + 1) = ?n + 1"
    using room l by (intro unat_cnt_Suc) simp
  have h: "head (store_write ds ?k r) = ?cs'"
    and c: "unat (cnt (store_write ds ?k r)) = ?n + 1"
    using su by (simp_all add: store_write_def Let_def)
  have g1: "\<forall>c \<in> set ?cs'. length c = DE_STATE_CHUNK_SIZE" by (rule u')
  have g2: "?n + 1 = length (recs @ [r])" using l by simp
  have g3: "(?n + 1 + 14) div DE_STATE_CHUNK_SIZE \<le> length ?cs'" using c1 by simp
  have g4: "take (?n + 1) (concat ?cs') = recs @ [r]" using tk flat by simp
  show ?thesis
    unfolding store_inv_def h c using g1 g2 g3 g4 by blast
qed

text \<open>An append on a well-shaped store never faults, whatever the counter holds; it
  leaves the store alone when the allocator fails and else writes the slot \<open>cnt\<close> points at
  and adds 1 to \<open>cnt\<close>, wrapping around.\<close>

lemma store_append_cases:
  assumes inv: "store_inv ds recs"
  shows "store_append ds r alloc =
           Inr (if append_allocates ds
                then (case alloc of
                        None \<Rightarrow> ds
                      | Some c \<Rightarrow> store_write (ds\<lparr>head := head ds @ [c]\<rparr>)
                                    (unat (cnt ds) div DE_STATE_CHUNK_SIZE) r)
                else store_write ds (unat (cnt ds) div DE_STATE_CHUNK_SIZE) r)"
proof -
  from inv have len: "(unat (cnt ds) + 14) div DE_STATE_CHUNK_SIZE \<le> length (head ds)"
    unfolding store_inv_def by blast
  have le: "unat (cnt ds) div DE_STATE_CHUNK_SIZE \<le> length (head ds)"
    using len unfolding DE_STATE_CHUNK_SIZE_def by arith
  show ?thesis
  proof (cases "head ds = []")
    case True
    with le have "unat (cnt ds) div DE_STATE_CHUNK_SIZE = 0" by simp
    with True show ?thesis
      by (simp add: store_append_def append_allocates_def split: option.splits)
  next
    case False
    with le show ?thesis
      by (auto simp: store_append_def append_allocates_def Let_def split: option.splits)
  qed
qed

lemma store_append_inv:
  fixes ds :: "('i, 'w::len) DirState"
  assumes inv: "store_inv ds recs" and a: "alloc_wf alloc"
    and room: "length recs + 1 < 2 ^ LENGTH('w)"
  shows "\<exists>ds'. store_append ds r alloc = Inr ds' \<and>
           store_inv ds' (recs @ (if append_allocates ds \<and> alloc = None then [] else [r]))"
proof -
  from inv have u: "\<forall>c \<in> set (head ds). length c = DE_STATE_CHUNK_SIZE"
    and l: "unat (cnt ds) = length recs"
    and len: "(unat (cnt ds) + 14) div DE_STATE_CHUNK_SIZE \<le> length (head ds)"
    and t: "take (unat (cnt ds)) (concat (head ds)) = recs"
    unfolding store_inv_def by blast+
  note e = store_append_cases [OF inv, of r alloc]
  show ?thesis
  proof (cases "append_allocates ds")
    case False
    then have j: "unat (cnt ds) div DE_STATE_CHUNK_SIZE \<noteq> length (head ds)"
      by (simp add: append_allocates_def)
    have k: "unat (cnt ds) div DE_STATE_CHUNK_SIZE < length (head ds)"
      using j len unfolding DE_STATE_CHUNK_SIZE_def by arith
    from store_write_inv [OF u k t l room, of r] e False show ?thesis by simp
  next
    case True
    show ?thesis
    proof (cases alloc)
      case None
      with e True inv show ?thesis by simp
    next
      case (Some c)
      with a have lc: "length c = DE_STATE_CHUNK_SIZE" by (simp add: alloc_wf_def)
      have k0: "unat (cnt ds) div DE_STATE_CHUNK_SIZE = length (head ds)"
        using True len unfolding append_allocates_def DE_STATE_CHUNK_SIZE_def
        by (cases "head ds = []") auto
      let ?ds = "ds\<lparr>head := head ds @ [c]\<rparr>"
      have u2: "\<forall>x \<in> set (head ?ds). length x = DE_STATE_CHUNK_SIZE" using u lc by simp
      have k2: "unat (cnt ?ds) div DE_STATE_CHUNK_SIZE < length (head ?ds)" using k0 by simp
      have full: "unat (cnt ds) = length (head ds) * DE_STATE_CHUNK_SIZE"
        using k0 len unfolding DE_STATE_CHUNK_SIZE_def by arith
      have t2: "take (unat (cnt ?ds)) (concat (head ?ds)) = recs"
        using t full length_concat_uniform [OF u] by simp
      have l2: "unat (cnt ?ds) = length recs" using l by simp
      from store_write_inv [OF u2 k2 t2 l2 room, of r] e Some True show ?thesis by simp
    qed
  qed
qed

lemma idx2_upd2_same: "idx2 (upd2 a i v) i = v"
  by (simp add: idx2_def upd2_def)

lemma idx2_upd2_other [simp]: "i \<le> Suc 0 \<Longrightarrow> idx2 (upd2 a i v) (Suc 0 - i) = idx2 a (Suc 0 - i)"
  by (cases "i = 0") (simp_all add: idx2_def upd2_def)

lemma dir_index_le: "dir_index d \<le> Suc 0"
  by (simp add: dir_index_def)

lemma alloc_wf_DeStateStoreAlloc: "alloc_wf (DeStateStoreAlloc ok)"
  by (simp add: alloc_wf_def DeStateStoreAlloc_def)

lemma DeStateStoreAlloc_None: "(DeStateStoreAlloc ok = None) = (\<not> ok)"
  by (simp add: DeStateStoreAlloc_def)

lemma upd2_idx2: "upd2 a i (idx2 a i) = a"
  by (simp add: upd2_def idx2_def)

lemma DeStateSignatureAppend_cases:
  assumes "store_inv (idx2 state (dir_index d)) recs"
  shows "\<exists>st1. DeStateSignatureAppend state s fl d ok = Inr st1 \<and>
           idx2 st1 (1 - dir_index d) = idx2 state (1 - dir_index d) \<and>
           cnt (idx2 st1 (dir_index d))
             = (if append_allocates (idx2 state (dir_index d)) \<and> \<not> ok
                then cnt (idx2 state (dir_index d))
                else cnt (idx2 state (dir_index d)) + 1) \<and>
           (append_allocates (idx2 state (dir_index d)) \<and> \<not> ok \<longrightarrow> st1 = state)"
  unfolding DeStateSignatureAppend_def
    store_append_cases [OF assms, of "\<lparr>item_sid = num s, item_flags = fl\<rparr>" "DeStateStoreAlloc ok"]
  by (simp add: DeStateStoreAlloc_def store_write_def Let_def idx2_upd2_same upd2_idx2 dir_index_le)

lemma DeStateSignatureAppend_inv:
  fixes state :: "'w::len DetectEngineState"
  assumes "store_inv (idx2 state (dir_index d)) recs"
    and room: "length recs + 1 < 2 ^ LENGTH('w)"
  shows "\<exists>state'. DeStateSignatureAppend state s fl d ok = Inr state' \<and>
           store_inv (idx2 state' (dir_index d))
             (recs @ (if append_allocates (idx2 state (dir_index d)) \<and> \<not> ok then []
                      else [\<lparr>item_sid = num s, item_flags = fl\<rparr>])) \<and>
           idx2 state' (1 - dir_index d) = idx2 state (1 - dir_index d)"
proof -
  from store_append_inv [OF assms(1) alloc_wf_DeStateStoreAlloc room,
      of "\<lparr>item_sid = num s, item_flags = fl\<rparr>" ok]
  obtain ds' where e: "store_append (idx2 state (dir_index d)) \<lparr>item_sid = num s, item_flags = fl\<rparr>
        (DeStateStoreAlloc ok) = Inr ds'"
    and i: "store_inv ds' (recs @ (if append_allocates (idx2 state (dir_index d)) \<and> \<not> ok then []
                      else [\<lparr>item_sid = num s, item_flags = fl\<rparr>]))"
    by (auto simp: DeStateStoreAlloc_None)
  from e have "DeStateSignatureAppend state s fl d ok = Inr (upd2 state (dir_index d) ds')"
    by (simp add: DeStateSignatureAppend_def)
  with i show ?thesis
    by (simp add: idx2_upd2_same dir_index_le)
qed

lemma appended_Cons:
  assumes "store_inv (idx2 state (dir_index d)) recs"
  shows "\<exists>st1. DeStateSignatureAppend state s fl d ok = Inr st1 \<and>
           appended state d ((s, fl, ok) # ops)
             = (if append_allocates (idx2 state (dir_index d)) \<and> \<not> ok then []
                else [\<lparr>item_sid = num s, item_flags = fl\<rparr>]) @ appended st1 d ops"
proof -
  from DeStateSignatureAppend_cases [OF assms, of s fl ok]
  obtain st1 where "DeStateSignatureAppend state s fl d ok = Inr st1" by blast
  then show ?thesis by simp
qed

lemma append_all_inv:
  fixes state :: "'w::len DetectEngineState"
  shows "store_inv (idx2 state (dir_index d)) recs \<Longrightarrow>
   length recs + length (appended state d ops) < 2 ^ LENGTH('w) \<Longrightarrow>
   \<exists>state'. append_all state d ops = Inr state' \<and>
      store_inv (idx2 state' (dir_index d)) (recs @ appended state d ops) \<and>
      idx2 state' (1 - dir_index d) = idx2 state (1 - dir_index d)"
proof (induction ops arbitrary: state recs)
  case Nil
  then show ?case by simp
next
  case (Cons op ops)
  obtain s fl ok where op: "op = (s, fl, ok)" by (cases op)
  let ?new = "if append_allocates (idx2 state (dir_index d)) \<and> \<not> ok then []
              else [\<lparr>item_sid = num s, item_flags = fl\<rparr>]"
  from appended_Cons [OF Cons.prems(1), of s fl ok ops]
  obtain st1 where e: "DeStateSignatureAppend state s fl d ok = Inr st1"
    and ap: "appended state d ((s, fl, ok) # ops) = ?new @ appended st1 d ops"
    by blast
  from Cons.prems(2) op ap
  have total: "length recs + length ?new + length (appended st1 d ops) < 2 ^ LENGTH('w)"
    by simp
  have i: "store_inv (idx2 st1 (dir_index d)) (recs @ ?new)"
    and o: "idx2 st1 (1 - dir_index d) = idx2 state (1 - dir_index d)"
  proof -
    show "idx2 st1 (1 - dir_index d) = idx2 state (1 - dir_index d)"
      using DeStateSignatureAppend_cases [OF Cons.prems(1), of s fl ok] e by auto
    show "store_inv (idx2 st1 (dir_index d)) (recs @ ?new)"
    proof (cases "append_allocates (idx2 state (dir_index d)) \<and> \<not> ok")
      case True
      with DeStateSignatureAppend_cases [OF Cons.prems(1), of s fl ok] e
      have "st1 = state" by auto
      with True Cons.prems(1) show ?thesis by simp
    next
      case False
      with total have room: "length recs + 1 < 2 ^ LENGTH('w)" by simp
      from DeStateSignatureAppend_inv [OF Cons.prems(1) room, of s fl ok] e
      show ?thesis by simp
    qed
  qed
  from total have "length (recs @ ?new) + length (appended st1 d ops) < 2 ^ LENGTH('w)" by simp
  from Cons.IH [OF i this] obtain st2 where e2: "append_all st1 d ops = Inr st2"
    and i2: "store_inv (idx2 st2 (dir_index d)) ((recs @ ?new) @ appended st1 d ops)"
    and o2: "idx2 st2 (1 - dir_index d) = idx2 st1 (1 - dir_index d)"
    by blast
  show ?case
    using op e e2 i2 o o2 ap by simp
qed

lemma append_all_append:
  "append_all state d (xs @ ys) =
     (case append_all state d xs of Inl e \<Rightarrow> Inl e | Inr st \<Rightarrow> append_all st d ys)"
  by (induction xs arbitrary: state) (auto split: sum.splits)

lemma appended_append:
  "append_all state d xs = Inr st \<Longrightarrow>
     appended state d (xs @ ys) = appended state d xs @ appended st d ys"
  by (induction xs arbitrary: state) (auto split: sum.splits)

lemma store_inv_slot:
  assumes "store_inv ds recs" and "j < unat (cnt ds)"
  shows "head ds ! (j div DE_STATE_CHUNK_SIZE) ! (j mod DE_STATE_CHUNK_SIZE) = recs ! j"
proof -
  from assms(1) have u: "\<forall>c \<in> set (head ds). length c = DE_STATE_CHUNK_SIZE"
    and len: "(unat (cnt ds) + 14) div DE_STATE_CHUNK_SIZE \<le> length (head ds)"
    and t: "take (unat (cnt ds)) (concat (head ds)) = recs"
    unfolding store_inv_def by blast+
  have "j < length (head ds) * DE_STATE_CHUNK_SIZE"
    using assms(2) len unfolding DE_STATE_CHUNK_SIZE_def by arith
  from nth_concat_uniform [OF u this]
  have "head ds ! (j div DE_STATE_CHUNK_SIZE) ! (j mod DE_STATE_CHUNK_SIZE) = concat (head ds) ! j"
    by simp
  also have "\<dots> = take (unat (cnt ds)) (concat (head ds)) ! j" using assms(2) by simp
  finally show ?thesis using t by simp
qed

lemma store_inv_iter: "store_inv ds recs \<Longrightarrow> DirStateIter ds = recs"
  unfolding store_inv_def DirStateIter_take by blast

lemma appended_prefix_length:
  "append_all state d xs = Inr st \<Longrightarrow>
     length (appended state d xs) \<le> length (appended state d (xs @ ys))"
  by (simp add: appended_append)

text \<open>
  Claim C6, as the code has it.  \<open>cnt\<close> is a \<open>SigIntId\<close> of \<open>LENGTH('w)\<close> bits.  For every
  sequence of calls of \<open>DeStateSignatureAppend\<close> on an initially empty state that stores
  fewer than \<open>2 ^ LENGTH('w)\<close> records, none of the calls faults; walking the chunk list of
  the direction from \<open>head\<close> and reading the first \<open>cnt\<close> slots yields exactly the records of
  the successful calls, in the order of the calls; \<open>cnt\<close> is their number; and every record
  present after the first \<open>n\<close> calls is in the same chunk and slot, unchanged, at the end.
\<close>

theorem append_iter_order:
  fixes direction :: "8 word" and e :: "'w::len DetectEngineState"
  assumes e: "e = (empty_dir, empty_dir)"
    and room: "length (appended e direction ops) < 2 ^ LENGTH('w)"
  shows "\<exists>state. append_all e direction ops = Inr state \<and>
     DirStateIter (idx2 state (dir_index direction)) = appended e direction ops \<and>
     unat (cnt (idx2 state (dir_index direction))) = length (appended e direction ops) \<and>
     (\<forall>n \<le> length ops. \<exists>earlier.
        append_all e direction (take n ops) = Inr earlier \<and>
        (\<forall>j < unat (cnt (idx2 earlier (dir_index direction))).
           head (idx2 state (dir_index direction)) ! (j div DE_STATE_CHUNK_SIZE) ! (j mod DE_STATE_CHUNK_SIZE)
         = head (idx2 earlier (dir_index direction)) ! (j div DE_STATE_CHUNK_SIZE) ! (j mod DE_STATE_CHUNK_SIZE)))"
proof -
  let ?i = "dir_index direction"
  have e0: "store_inv (idx2 e ?i) []"
    unfolding e by (simp add: idx2_def store_inv_empty)
  from room have room0: "length ([] :: DeStateStoreItem list) + length (appended e direction ops)
                           < 2 ^ LENGTH('w)" by simp
  from append_all_inv [OF e0 room0] obtain state
    where run: "append_all e direction ops = Inr state"
      and inv: "store_inv (idx2 state ?i) (appended e direction ops)"
    by auto
  have stable: "\<exists>earlier. append_all e direction (take n ops) = Inr earlier \<and>
        (\<forall>j < unat (cnt (idx2 earlier ?i)).
           head (idx2 state ?i) ! (j div DE_STATE_CHUNK_SIZE) ! (j mod DE_STATE_CHUNK_SIZE)
         = head (idx2 earlier ?i) ! (j div DE_STATE_CHUNK_SIZE) ! (j mod DE_STATE_CHUNK_SIZE))" for n
  proof -
    from run have "append_all e direction (take n ops @ drop n ops) = Inr state" by simp
    then obtain earlier where r1: "append_all e direction (take n ops) = Inr earlier"
      unfolding append_all_append by (auto split: sum.splits)
    have split: "appended e direction ops
        = appended e direction (take n ops) @ appended earlier direction (drop n ops)"
      using appended_append [OF r1, of "drop n ops"] by simp
    with room have "length ([] :: DeStateStoreItem list) + length (appended e direction (take n ops))
                      < 2 ^ LENGTH('w)" by simp
    from append_all_inv [OF e0 this] r1
    have i1: "store_inv (idx2 earlier ?i) (appended e direction (take n ops))"
      by auto
    have c1: "unat (cnt (idx2 earlier ?i)) = length (appended e direction (take n ops))"
      using i1 by (simp add: store_inv_def)
    have c2: "unat (cnt (idx2 state ?i)) = length (appended e direction ops)"
      using inv by (simp add: store_inv_def)
    have "head (idx2 state ?i) ! (j div DE_STATE_CHUNK_SIZE) ! (j mod DE_STATE_CHUNK_SIZE)
         = head (idx2 earlier ?i) ! (j div DE_STATE_CHUNK_SIZE) ! (j mod DE_STATE_CHUNK_SIZE)"
      if j: "j < unat (cnt (idx2 earlier ?i))" for j
    proof -
      have j2: "j < unat (cnt (idx2 state ?i))" using j c1 c2 split by simp
      show ?thesis
        using store_inv_slot [OF inv j2] store_inv_slot [OF i1 j] j c1 split
        by (simp add: nth_append)
    qed
    with r1 show ?thesis by blast
  qed
  have "unat (cnt (idx2 state ?i)) = length (appended e direction ops)"
    using inv by (simp add: store_inv_def)
  with run store_inv_iter [OF inv] stable show ?thesis by blast
qed

theorem append_iter_order_witness:
  "length (appended ((empty_dir, empty_dir) :: 16 DetectEngineState) STREAM_TOSERVER test02_ops)
     < 2 ^ LENGTH(16) \<and>
   (\<exists>state. append_all ((empty_dir, empty_dir) :: 16 DetectEngineState) STREAM_TOSERVER test02_ops
               = Inr state \<and>
     DirStateIter (idx2 state 0) =
       map (\<lambda>n. \<lparr>item_sid = n, item_flags = 0\<rparr>)
         [0, 11, 22, 33, 44, 55, 66, 77, 88, 99, 100, 111, 122, 133, 144, 166] \<and>
     cnt (idx2 state 0) = 16)"
proof -
  let ?e = "(empty_dir, empty_dir) :: 16 DetectEngineState"
  have a: "appended ?e STREAM_TOSERVER test02_ops =
     map (\<lambda>n. \<lparr>item_sid = n, item_flags = 0\<rparr>)
       [0, 11, 22, 33, 44, 55, 66, 77, 88, 99, 100, 111, 122, 133, 144, 166]"
    by code_simp
  have i: "dir_index STREAM_TOSERVER = 0"
    by (simp add: dir_index_def STREAM_TOSERVER_def)
  have r: "length (appended ?e STREAM_TOSERVER test02_ops) < 2 ^ LENGTH(16)"
    unfolding a by simp
  from append_iter_order [OF refl r] obtain state where
    s: "append_all ?e STREAM_TOSERVER test02_ops = Inr state"
    "DirStateIter (idx2 state (dir_index STREAM_TOSERVER))
       = appended ?e STREAM_TOSERVER test02_ops"
    "unat (cnt (idx2 state (dir_index STREAM_TOSERVER)))
       = length (appended ?e STREAM_TOSERVER test02_ops)"
    by blast
  from s(3) have "unat (cnt (idx2 state 0)) = unat (16 :: 16 word)" unfolding a i by simp
  then have "cnt (idx2 state 0) = 16" by (simp only: word_unat_eq_iff)
  with s(1,2) r show ?thesis unfolding a i by auto
qed

lemma cnt_wraps:
  fixes c :: "'w::len word"
  assumes "unat c + 1 = 2 ^ LENGTH('w)"
  shows "c + 1 = 0"
proof -
  have "unat (c + 1) = (unat c + unat (1 :: 'w word)) mod 2 ^ LENGTH('w)"
    by (simp only: unat_word_ariths)
  also have "\<dots> = (unat c + 1) mod 2 ^ LENGTH('w)" by simp
  also have "\<dots> = 0" using assms by simp
  finally show ?thesis by (simp add: unat_eq_0)
qed

lemma appended_ok:
  fixes state :: "'w::len DetectEngineState"
  shows "store_inv (idx2 state (dir_index d)) recs \<Longrightarrow> length recs + n < 2 ^ LENGTH('w) \<Longrightarrow>
     appended state d (replicate n (s, fl, True)) = replicate n \<lparr>item_sid = num s, item_flags = fl\<rparr>"
proof (induction n arbitrary: state recs)
  case 0
  then show ?case by simp
next
  case (Suc n)
  from appended_Cons [OF Suc.prems(1), of s fl True "replicate n (s, fl, True)"]
  obtain st1 where e: "DeStateSignatureAppend state s fl d True = Inr st1"
    and ap: "appended state d ((s, fl, True) # replicate n (s, fl, True))
               = [\<lparr>item_sid = num s, item_flags = fl\<rparr>] @ appended st1 d (replicate n (s, fl, True))"
    by auto
  from Suc.prems(2) have room: "length recs + 1 < 2 ^ LENGTH('w)" by simp
  from DeStateSignatureAppend_inv [OF Suc.prems(1) room, of s fl True] e
  have i: "store_inv (idx2 st1 (dir_index d)) (recs @ [\<lparr>item_sid = num s, item_flags = fl\<rparr>])"
    by simp
  from Suc.prems(2) have "length (recs @ [\<lparr>item_sid = num s, item_flags = fl\<rparr>]) + n < 2 ^ LENGTH('w)"
    by simp
  from Suc.IH [OF i this] ap show ?case by simp
qed

lemma append_all_wraps:
  fixes e :: "'w::len DetectEngineState"
  assumes e: "e = (empty_dir, empty_dir)"
  shows "\<exists>state. append_all e d (replicate (2 ^ LENGTH('w)) (s, fl, True)) = Inr state \<and>
           cnt (idx2 state (dir_index d)) = 0 \<and>
           DirStateIter (idx2 state (dir_index d)) = [] \<and>
           appended e d (replicate (2 ^ LENGTH('w)) (s, fl, True))
             = replicate (2 ^ LENGTH('w)) \<lparr>item_sid = num s, item_flags = fl\<rparr>"
proof -
  let ?i = "dir_index d" and ?x = "(s, fl, True)" and ?r = "\<lparr>item_sid = num s, item_flags = fl\<rparr>"
  define m :: nat where "m = 2 ^ LENGTH('w) - 1"
  have m: "Suc m = 2 ^ LENGTH('w)" by (simp add: m_def)
  have rep: "replicate (2 ^ LENGTH('w)) ?x = replicate m ?x @ [?x]"
    unfolding m [symmetric] by (simp add: replicate_append_same)
  have e0: "store_inv (idx2 e ?i) []"
    unfolding e by (simp add: idx2_def store_inv_empty)
  have ml: "length ([] :: DeStateStoreItem list) + m < 2 ^ LENGTH('w)" using m by simp
  have a1: "appended e d (replicate m ?x) = replicate m ?r"
    by (rule appended_ok [OF e0 ml])
  from ml have "length ([] :: DeStateStoreItem list) + length (appended e d (replicate m ?x))
                  < 2 ^ LENGTH('w)" unfolding a1 by simp
  from append_all_inv [OF e0 this] obtain st1
    where r1: "append_all e d (replicate m ?x) = Inr st1"
      and i1: "store_inv (idx2 st1 ?i) (appended e d (replicate m ?x))"
    by auto
  from i1 have c1: "unat (cnt (idx2 st1 ?i)) = m" unfolding a1 by (simp add: store_inv_def)
  from DeStateSignatureAppend_cases [OF i1, of s fl True]
  obtain st2 where r2: "DeStateSignatureAppend st1 s fl d True = Inr st2"
    and c2: "cnt (idx2 st2 ?i) = cnt (idx2 st1 ?i) + 1"
    by auto
  from c1 m have "unat (cnt (idx2 st1 ?i)) + 1 = 2 ^ LENGTH('w)" by simp
  from cnt_wraps [OF this] c2 have z: "cnt (idx2 st2 ?i) = 0" by simp
  have run: "append_all e d (replicate (2 ^ LENGTH('w)) ?x) = Inr st2"
    unfolding rep append_all_append using r1 r2 by simp
  have "appended st1 d [?x] = [?r]"
    using appended_Cons [OF i1, of s fl True "[]"] by auto
  with appended_append [OF r1, of "[?x]"] a1
  have ap: "appended e d (replicate (2 ^ LENGTH('w)) ?x) = replicate (2 ^ LENGTH('w)) ?r"
    unfolding rep m [symmetric] by (simp add: replicate_append_same)
  from z have "DirStateIter (idx2 st2 ?i) = []" by (simp add: DirStateIter_take)
  with run z ap show ?thesis by blast
qed

text \<open>
  Claim C6 as stated fails once the counter wraps.  With a 16-bit \<open>SigIntId\<close>, 65536 appends
  that all succeed leave \<open>cnt = 0\<close>, and the walk yields no record at all.
\<close>

theorem append_wraps_counterexample:
  "iter_after (replicate 65536 (sig_num 1, 0, True)) = Some ([], 0) \<and>
   appended ((empty_dir, empty_dir) :: 16 DetectEngineState) STREAM_TOSERVER
       (replicate 65536 (sig_num 1, 0, True))
     = replicate 65536 \<lparr>item_sid = 1, item_flags = 0\<rparr>"
proof -
  have i: "dir_index STREAM_TOSERVER = 0"
    by (simp add: dir_index_def STREAM_TOSERVER_def)
  have n: "(2 :: nat) ^ LENGTH(16) = 65536" by simp
  from append_all_wraps [OF refl, where 'w = 16, of STREAM_TOSERVER "sig_num 1" 0]
  show ?thesis
    unfolding n i iter_after_def by (auto simp: sig_num_def)
qed

subsection \<open>Allocation failure\<close>

text \<open>
  Claim C8.  When an append reaches the chunk allocator and the allocation fails, the call
  returns normally with the state it was given: \<open>cnt\<close>, the slots and the chunk list of
  the direction are what they were.  Both append functions return nothing; their caller
  \<open>StoreState\<close> still stores the version and returns 1.
\<close>

theorem alloc_failure_drops_append:
  "(append_allocates (idx2 state (dir_index direction)) \<longrightarrow>
      DeStateSignatureAppend state s inspect_flags direction False = Inr state) \<and>
   (append_allocates (idx2 fstate (dir_index direction)) \<longrightarrow>
      DeStateFlowRuleAppend fstate s sm inspect_flags direction False = Inr fstate \<and>
      (f_de_state f = Some fstate \<and> \<not> flow_chunk_alloc_ok heap \<longrightarrow>
         StoreState heap f direction alversion s sm inspect_flags
           = Inr (1, DeStateStoreStateVersion f alversion direction)))"
proof -
  have a: "store_append ds r None = Inr ds" if "append_allocates ds" for ds :: "('i, 'w::len) DirState" and r
    using that by (auto simp: append_allocates_def store_append_def Let_def)
  have 1: "DeStateSignatureAppend state s inspect_flags direction False = Inr state"
    if "append_allocates (idx2 state (dir_index direction))"
    using a [OF that] by (simp add: DeStateSignatureAppend_def DeStateStoreAlloc_def upd2_idx2)
  have 2: "DeStateFlowRuleAppend fstate s sm inspect_flags direction False = Inr fstate"
    if "append_allocates (idx2 fstate (dir_index direction))"
    using a [OF that] by (simp add: DeStateFlowRuleAppend_def DeStateStoreFlowRulesAlloc_def upd2_idx2)
  have 3: "StoreState heap f direction alversion s sm inspect_flags
           = Inr (1, DeStateStoreStateVersion f alversion direction)"
    if "append_allocates (idx2 fstate (dir_index direction))"
      and "f_de_state f = Some fstate" and "\<not> flow_chunk_alloc_ok heap"
  proof -
    have eq: "f\<lparr>f_de_state := Some fstate\<rparr> = f" using that(2) by (cases f) simp
    show ?thesis using 2 [OF that(1)] that(2,3) by (simp add: StoreState_def eq)
  qed
  from 1 2 3 show ?thesis by blast
qed

theorem alloc_failure_drops_append_witness:
  "append_allocates (idx2 (empty_dir, empty_dir :: 16 DetectEngineStateDirection) (dir_index STREAM_TOSERVER)) \<and>
   DeStateSignatureAppend ((empty_dir, empty_dir) :: 16 DetectEngineState) (sig_num 11) 0
       STREAM_TOSERVER False
     = Inr (empty_dir, empty_dir) \<and>
   DeStateFlowRuleAppend ((empty_dir, empty_dir) :: 16 DetectEngineStateFlow) (sig_num 11) [] 0
       STREAM_TOSERVER False
     = Inr (empty_dir, empty_dir) \<and>
   StoreState (heap_ok\<lparr>flow_chunk_alloc_ok := False\<rparr>) (bare_flow (Some (empty_dir, empty_dir)))
       STREAM_TOSERVER 5 (sig_num 11) [] 0
     = Inr (1, DeStateStoreStateVersion (bare_flow (Some (empty_dir, empty_dir))) 5 STREAM_TOSERVER)"
proof -
  have h: "append_allocates (idx2 (empty_dir, empty_dir :: 16 DetectEngineStateDirection) (dir_index STREAM_TOSERVER))"
    "append_allocates (idx2 (empty_dir, empty_dir :: 16 DetectEngineStateDirectionFlow) (dir_index STREAM_TOSERVER))"
    by (simp_all add: append_allocates_def idx2_def empty_dir_def)
  have f: "f_de_state (bare_flow (Some (empty_dir, empty_dir))) = Some (empty_dir, empty_dir)"
    "\<not> flow_chunk_alloc_ok (heap_ok\<lparr>flow_chunk_alloc_ok := False\<rparr>)"
    by (simp_all add: bare_flow_def)
  show ?thesis
    using h f alloc_failure_drops_append [where state = "(empty_dir, empty_dir) :: 16 DetectEngineState"
        and direction = STREAM_TOSERVER and s = "sig_num 11" and inspect_flags = 0
        and fstate = "(empty_dir, empty_dir) :: 16 DetectEngineStateFlow" and sm = "[]"
        and f = "bare_flow (Some (empty_dir, empty_dir))"
        and heap = "heap_ok\<lparr>flow_chunk_alloc_ok := False\<rparr>" and alversion = 5]
    by blast
qed

subsection \<open>The pre-check\<close>

lemma HasStoredSigs_txs_step:
  "tx_id < length (txs alstate) \<Longrightarrow>
   HasStoredSigs_txs alstate flags (tx_id # ids) =
     (if tx_has_sigs alstate flags tx_id then 1 else HasStoredSigs_txs alstate flags ids)"
  by (simp add: AppLayerParserGetTx_def tx_has_sigs_def split: option.split)

lemma HasStoredSigs_txs_iff:
  "\<forall>tx_id \<in> set ids. tx_id < length (txs alstate) \<Longrightarrow>
   HasStoredSigs_txs alstate flags ids =
     (if \<exists>tx_id \<in> set ids. tx_has_sigs alstate flags tx_id then 1 else 0)"
proof (induction ids)
  case Nil
  then show ?case by simp
next
  case (Cons tx_id ids)
  then have l: "tx_id < length (txs alstate)" and r: "\<forall>t \<in> set ids. t < length (txs alstate)"
    by simp_all
  show ?case
    unfolding HasStoredSigs_txs_step [OF l] Cons.IH [OF r] by simp
qed

lemma HasStoredSigs_iff: "HasStoredSigs f flags = (if stored_sigs f flags then 1 else 0)"
proof (cases "f_alstate f")
  case None
  then show ?thesis
    by (simp add: HasStoredSigs_def stored_sigs_def StateIsValid_def split: option.split)
next
  case (Some alstate)
  have b: "\<forall>tx_id \<in> set [inspect_id f flags ..< length (txs alstate)]. tx_id < length (txs alstate)"
    by simp
  note t = HasStoredSigs_txs_iff [OF b]
  show ?thesis
    by (simp add: HasStoredSigs_def stored_sigs_def Some AppLayerParserGetTxCnt_def t
        split: option.split)
qed

text \<open>
  Claim C5, as the code has it.  \<open>DeStateFlowHasInspectableState\<close> returns 2 exactly when
  \<open>STREAM_EOF\<close> is not set, the flow has a flow detect state (\<open>f->de_state != NULL\<close>) and the
  stored \<open>detect_alversion\<close> of the direction equals the given version; in every other case it
  returns 1 if stored signatures exist for the direction and 0 otherwise.
\<close>

theorem has_inspectable_state_cases:
  "DeStateFlowHasInspectableState f alproto alversion flags =
     (if flags AND STREAM_EOF = 0 \<and> f_de_state f \<noteq> None \<and>
         idx2 (f_detect_alversion f) (dir_index flags) = alversion
      then 2
      else if stored_sigs f flags then 1 else 0)"
  by (simp add: DeStateFlowHasInspectableState_def HasStoredSigs_iff)

theorem has_inspectable_state_cases_witness:
  "DeStateFlowHasInspectableState
     (http_flow [] (Some (one_record rule7 zero_rule, empty_dir))) ALPROTO_HTTP 0 STREAM_TOSERVER = 2 \<and>
   DeStateFlowHasInspectableState
     (http_flow [] (Some (one_record rule7 zero_rule, empty_dir))) ALPROTO_HTTP 0
     (STREAM_TOSERVER OR STREAM_EOF) = 1 \<and>
   DeStateFlowHasInspectableState
     (http_flow [Some (tx_of 1 0 (Some (one_record item1 zero_item, empty_dir)))] None)
     ALPROTO_HTTP 1 STREAM_TOSERVER = 1 \<and>
   DeStateFlowHasInspectableState
     (http_flow [Some (tx_of 1 0 (Some (one_record item1 zero_item, empty_dir)))] None)
     ALPROTO_HTTP 1 STREAM_TOCLIENT = 0"
proof -
  let ?f1 = "http_flow [] (Some (one_record rule7 zero_rule, empty_dir))"
  let ?f2 = "http_flow [Some (tx_of 1 0 (Some (one_record item1 zero_item, empty_dir)))] None"
  have e: "STREAM_TOSERVER AND STREAM_EOF = 0" "(STREAM_TOSERVER OR STREAM_EOF) AND STREAM_EOF \<noteq> 0"
    by (simp_all add: STREAM_TOSERVER_def STREAM_EOF_def)
  have s1: "stored_sigs ?f1 (STREAM_TOSERVER OR STREAM_EOF)" by code_simp
  have s2: "stored_sigs ?f2 STREAM_TOSERVER" by code_simp
  have s3: "\<not> stored_sigs ?f2 STREAM_TOCLIENT" by code_simp
  have v1: "idx2 (f_detect_alversion ?f1) (dir_index STREAM_TOSERVER) = 0" by code_simp
  have v2: "f_de_state ?f1 \<noteq> None" by (simp add: http_flow_def)
  have v3: "f_de_state ?f2 = None" by (simp add: http_flow_def)
  have a: "DeStateFlowHasInspectableState ?f1 ALPROTO_HTTP 0 STREAM_TOSERVER = 2"
    unfolding has_inspectable_state_cases using e(1) v1 v2 by simp
  have b: "DeStateFlowHasInspectableState ?f1 ALPROTO_HTTP 0 (STREAM_TOSERVER OR STREAM_EOF) = 1"
    unfolding has_inspectable_state_cases using e(2) s1 by simp
  have c: "DeStateFlowHasInspectableState ?f2 ALPROTO_HTTP 1 STREAM_TOSERVER = 1"
    unfolding has_inspectable_state_cases using v3 s2 by simp
  have d: "DeStateFlowHasInspectableState ?f2 ALPROTO_HTTP 1 STREAM_TOCLIENT = 0"
    unfolding has_inspectable_state_cases using v3 s3 by simp
  from a b c d show ?thesis by blast
qed

text \<open>
  Claim C5 as stated fails: on a flow that has stored transactional records but no flow
  detect state, with \<open>STREAM_EOF\<close> clear and the stored version equal to the given one, the
  result is 1, not 2.
\<close>

theorem has_inspectable_state_counterexample:
  "STREAM_TOSERVER AND STREAM_EOF = 0 \<and>
   idx2 (f_detect_alversion
           (http_flow [Some (tx_of 1 0 (Some (one_record item1 zero_item, empty_dir)))] None))
        (dir_index STREAM_TOSERVER) = 0 \<and>
   DeStateFlowHasInspectableState
     (http_flow [Some (tx_of 1 0 (Some (one_record item1 zero_item, empty_dir)))] None)
     ALPROTO_HTTP 0 STREAM_TOSERVER = 1"
  by code_simp

subsection \<open>Direction slots\<close>

text \<open>
  Claim C10 as stated fails for \<open>DetectEngineStateReset\<close>: a direction value with neither
  direction bit set, which \<open>dir_index\<close> maps to slot 1, resets nothing, while
  \<open>STREAM_TOCLIENT\<close> resets slot 1.
\<close>

theorem reset_mask_counterexample:
  "dir_index 0 = 1 \<and>
   DetectEngineStateReset (Some (empty_dir, one_record rule7 zero_rule)) 0
     = Some (empty_dir, one_record rule7 zero_rule) \<and>
   DetectEngineStateReset (Some (empty_dir, one_record rule7 zero_rule)) STREAM_TOCLIENT
     \<noteq> Some (empty_dir, one_record rule7 zero_rule)"
  by code_simp

subsection \<open>The walks of the continue driver\<close>

text \<open>
  Claim C4 at a failing input.  The flow's store holds one rule for the direction.  With one
  stored transactional record walked before, \<open>state_cnt\<close> is 1 when the second walk starts, and
  \<open>DoInspectFlowRule\<close> is never called; with no transactional record, the rule is inspected.
\<close>

theorem flow_rules_skipped_after_tx_records:
  "DirStateIter (idx2 (one_record rule7 zero_rule, empty_dir) (dir_index STREAM_TOSERVER)) = [rule7] \<and>
   inspected (fst (DeStateDetectContinueDetection de_ctx0 det_ctx0
      (http_flow [Some (tx_of 1 1 (Some (one_record item1 zero_item, empty_dir)))]
                 (Some (one_record rule7 zero_rule, empty_dir)))
      STREAM_TOSERVER ALPROTO_HTTP 1)) = [InspectItem 0 1 0] \<and>
   inspected (fst (DeStateDetectContinueDetection de_ctx0 det_ctx0
      (http_flow [Some (tx_of 1 1 None)] (Some (one_record rule7 zero_rule, empty_dir)))
      STREAM_TOSERVER ALPROTO_HTTP 1)) = [InspectFlowRule 7 1]"
  by code_simp

text \<open>
  Claim C7 at a failing input.  Transaction 0 is in progress and has no detect state, so its
  round ends in \<open>continue\<close> before the test that breaks the loop; the stored record of
  transaction 1 is inspected in the same call.
\<close>

theorem inspects_past_in_progress_tx:
  "tx_progress (tx_of 0 0 None) STREAM_TOSERVER
     < GetStateProgressCompletionStatus
         (http_flow [Some (tx_of 0 0 None),
                     Some (tx_of 2 0 (Some (one_record item1 zero_item, empty_dir)))] None)
         ALPROTO_HTTP STREAM_TOSERVER \<and>
   inspected (fst (DeStateDetectContinueDetection de_ctx0 det_ctx0
      (http_flow [Some (tx_of 0 0 None),
                  Some (tx_of 2 0 (Some (one_record item1 zero_item, empty_dir)))] None)
      STREAM_TOSERVER ALPROTO_HTTP 1)) = [InspectItem 1 1 0]"
  by code_simp

lemma inspected_no_new_state [simp]: "inspected (no_new_state d n) = inspected d"
  by (simp add: no_new_state_def)

lemma inspected_PacketAlertAppend [simp]: "inspected (PacketAlertAppend d s t fl) = inspected d"
  by (simp add: PacketAlertAppend_def)

lemma inspected_ApplyActions [simp]: "inspected (DetectSignatureApplyActions d s) = inspected d"
  by (simp add: DetectSignatureApplyActions_def)

lemma inspected_alert_or_apply [simp]: "inspected (alert_or_apply d s t fl) = inspected d"
  by (simp add: alert_or_apply_def)

lemma DoInspectItem_run_inspected:
  "DoInspectItem_run de_ctx f alproto flags tx_id total_txs item fl (d, fnm) = (r, item', d', fnm')
     \<Longrightarrow> inspected d' = inspected d"
  by (auto simp: DoInspectItem_run_def Let_def split: option.splits prod.splits if_splits)

lemma DoInspectItem_inspected:
  "DoInspectItem de_ctx dsf f alproto flags tx_id total_txs inprog nnp item (d, fnm) = (r, item', d', fnm')
     \<Longrightarrow> inspected d' = inspected d"
  unfolding DoInspectItem_def Let_def
  by (auto split: option.splits if_splits dest: DoInspectItem_run_inspected)

lemma DoInspectFlowRule_inspected:
  "DoInspectFlowRule de_ctx dsf f alproto flags item d = (r, item', d')
     \<Longrightarrow> inspected d' = inspected d"
  by (auto simp: DoInspectFlowRule_def Let_def split: option.splits prod.splits if_splits)

lemma walk_log_step:
  assumes "0 \<le> insp_result e" and "walk_log ab new"
  shows "walk_log ab (e # new)"
  using assms by (cases new) (auto simp: walk_log_def)

lemma inspect_slots_log:
  assumes step: "\<And>item s r item' s'. f item s = (r, item', s') \<Longrightarrow>
                   \<exists>e. lg s' = lg s @ [e] \<and> insp_result e = r"
  shows "inspect_slots f c xs n s = (ab, xs', n', s') \<Longrightarrow>
           \<exists>new. lg s' = lg s @ new \<and> walk_log ab new"
proof (induction xs arbitrary: n s ab xs' n' s')
  case Nil
  then show ?case by (simp add: walk_log_def)
next
  case (Cons item rest)
  show ?case
  proof (cases "n < c")
    case False
    with Cons.prems show ?thesis by (simp add: walk_log_def)
  next
    case True
    obtain r item1 s1 where f: "f item s = (r, item1, s1)" by (cases "f item s") auto
    from step [OF f] obtain e where e: "lg s1 = lg s @ [e]" "insp_result e = r" by blast
    show ?thesis
    proof (cases "r < 0")
      case neg: True
      with True f Cons.prems have "ab" "s' = s1" by auto
      with e neg show ?thesis by (auto simp: walk_log_def)
    next
      case nonneg: False
      obtain ab2 rest2 n2 s2 where i: "inspect_slots f c rest (n + 1) s1 = (ab2, rest2, n2, s2)"
        by (cases "inspect_slots f c rest (n + 1) s1") auto
      with True f nonneg Cons.prems have eq: "ab = ab2" "s' = s2" by auto
      from Cons.IH [OF i] obtain new where n: "lg s2 = lg s1 @ new" "walk_log ab2 new" by blast
      have "walk_log ab2 (e # new)" using walk_log_step [OF _ n(2)] nonneg e(2) by simp
      with n(1) e(1) eq show ?thesis by auto
    qed
  qed
qed

lemma walk_log_append:
  assumes "walk_log False a" and "walk_log ab b"
  shows "walk_log ab (a @ b)"
  using assms by (induction a) (auto simp: walk_log_def intro: walk_log_step [unfolded walk_log_def])

lemma inspect_store_log:
  assumes step: "\<And>item s r item' s'. f item s = (r, item', s') \<Longrightarrow>
                   \<exists>e. lg s' = lg s @ [e] \<and> insp_result e = r"
  shows "inspect_store f c cs n s = (ab, cs', n', s') \<Longrightarrow>
           \<exists>new. lg s' = lg s @ new \<and> walk_log ab new"
proof (induction cs arbitrary: n s ab cs' n' s')
  case Nil
  then show ?case by (simp add: walk_log_def)
next
  case (Cons chunk rest)
  obtain ab1 chunk1 n1 s1 where i: "inspect_slots f c chunk n s = (ab1, chunk1, n1, s1)"
    by (cases "inspect_slots f c chunk n s") auto
  have "\<exists>new. lg s1 = lg s @ new \<and> walk_log ab1 new"
    by (rule inspect_slots_log [where f = f and lg = lg, OF _ i]) (erule step)
  then obtain new1 where n1: "lg s1 = lg s @ new1" "walk_log ab1 new1" by blast
  show ?case
  proof (cases ab1)
    case True
    with i Cons.prems have "ab" "s' = s1" by auto
    with n1 True show ?thesis by auto
  next
    case False
    obtain ab2 rest2 n2 s2 where j: "inspect_store f c rest n1 s1 = (ab2, rest2, n2, s2)"
      by (cases "inspect_store f c rest n1 s1") auto
    with False i Cons.prems have eq: "ab = ab2" "s' = s2" by auto
    from Cons.IH [OF j] obtain new2 where n2: "lg s2 = lg s1 @ new2" "walk_log ab2 new2" by blast
    have "walk_log ab2 (new1 @ new2)" using walk_log_append n1(2) n2(2) False by simp
    with n1(1) n2(1) eq show ?thesis by auto
  qed
qed

lemma inspect_item_logged_step:
  "inspect_item_logged ii dsf f alproto flags tx_id total_txs inprog nnp item s = (r, item', s')
     \<Longrightarrow> \<exists>e. (inspected \<circ> fst) s' = (inspected \<circ> fst) s @ [e] \<and> insp_result e = r"
  by (auto simp: inspect_item_logged_def insp_result_def split: prod.splits)

lemma inspect_rule_logged_step:
  "inspect_rule_logged fi dsf f alproto flags rule d = (r, rule', d')
     \<Longrightarrow> \<exists>e. inspected d' = inspected d @ [e] \<and> insp_result e = r"
  by (auto simp: inspect_rule_logged_def insp_result_def split: prod.splits)

lemma continue_tx_with_log:
  "\<exists>new. inspected (fst (ctl_state (continue_tx_with ii flags alproto total_txs tx_id (d, f, fnm, sc))))
            = inspected d @ new \<and>
         walk_log (ctl_end (continue_tx_with ii flags alproto total_txs tx_id (d, f, fnm, sc))) new"
proof -
  have triv: "\<exists>new. inspected d = inspected d @ new \<and> walk_log False new"
    by (simp add: walk_log_def)
  show ?thesis
  proof (cases "f_alstate f")
    case None
    then show ?thesis using triv by (simp add: continue_tx_with_def ctl_state_def ctl_end_def)
  next
    case (Some alstate)
    show ?thesis
    proof (cases "AppLayerParserGetTx alstate tx_id")
      case None
      with Some show ?thesis using triv by (simp add: continue_tx_with_def ctl_state_def ctl_end_def)
    next
      case tx: (Some inspect_tx)
      show ?thesis
      proof (cases "detect_state inspect_tx")
        case None
        with Some tx show ?thesis using triv
          by (simp add: continue_tx_with_def ctl_state_def ctl_end_def Let_def)
      next
        case ds: (Some tx_de_state)
        let ?g = "inspect_item_logged ii (dir_flags (idx2 tx_de_state (dir_index flags))) f
                    alproto flags tx_id total_txs
                    (tx_progress inspect_tx flags < GetStateProgressCompletionStatus f alproto flags)
                    (next_tx_dormant alstate flags tx_id total_txs)"
        obtain ab store1 sc1 d1 fnm1 where w: "inspect_store ?g (unat (cnt (idx2 tx_de_state (dir_index flags))))
              (head (idx2 tx_de_state (dir_index flags))) 0 (d, fnm) = (ab, store1, sc1, d1, fnm1)"
          using prod_cases5 by blast
        have "\<exists>new. (inspected \<circ> fst) (d1, fnm1) = (inspected \<circ> fst) (d, fnm) @ new \<and> walk_log ab new"
          by (rule inspect_store_log [where f = ?g and lg = "inspected \<circ> fst", OF _ w])
             (erule inspect_item_logged_step)
        then obtain new where n: "inspected d1 = inspected d @ new" "walk_log ab new" by auto
        have "fst (ctl_state (continue_tx_with ii flags alproto total_txs tx_id (d, f, fnm, sc))) = d1
            \<and> ctl_end (continue_tx_with ii flags alproto total_txs tx_id (d, f, fnm, sc)) = ab"
          using Some tx ds w unfolding continue_tx_with_def
          by (simp add: Let_def ctl_state_def ctl_end_def)
        with n show ?thesis by auto
      qed
    qed
  qed
qed

lemma continue_txs_with_log:
  "\<exists>new. inspected (fst (ctl_state (continue_txs_with ii flags alproto total_txs ids st)))
            = inspected (fst st) @ new \<and>
         walk_log (ctl_end (continue_txs_with ii flags alproto total_txs ids st)) new"
proof (induction ids arbitrary: st)
  case Nil
  then show ?case by (simp add: ctl_state_def ctl_end_def walk_log_def)
next
  case (Cons tx_id ids)
  obtain d f fnm sc where st: "st = (d, f, fnm, sc)" using prod_cases4 by blast
  from continue_tx_with_log [of ii flags alproto total_txs tx_id d f fnm sc]
  obtain new1 where n1:
    "inspected (fst (ctl_state (continue_tx_with ii flags alproto total_txs tx_id st))) = inspected d @ new1"
    "walk_log (ctl_end (continue_tx_with ii flags alproto total_txs tx_id st)) new1"
    unfolding st by blast
  show ?case
  proof (cases "continue_tx_with ii flags alproto total_txs tx_id st")
    case (Next st1)
    from Cons.IH [of st1] obtain new2 where n2:
      "inspected (fst (ctl_state (continue_txs_with ii flags alproto total_txs ids st1)))
         = inspected (fst st1) @ new2"
      "walk_log (ctl_end (continue_txs_with ii flags alproto total_txs ids st1)) new2" by blast
    from n1 Next have a: "inspected (fst st1) = inspected d @ new1" "walk_log False new1"
      by (simp_all add: ctl_state_def ctl_end_def)
    have "walk_log (ctl_end (continue_txs_with ii flags alproto total_txs ids st1)) (new1 @ new2)"
      using walk_log_append [OF a(2) n2(2)] .
    with a n2 Next st show ?thesis by auto
  next
    case (Break st1)
    with n1 st show ?thesis by (auto simp: ctl_state_def ctl_end_def)
  next
    case (End st1)
    with n1 st show ?thesis by (auto simp: ctl_state_def ctl_end_def)
  qed
qed

lemma continue_flow_with_log:
  "\<exists>new ab. inspected (fst (continue_flow_with fi flags alproto alversion (d, f, fnm, sc)))
            = inspected d @ new \<and> walk_log ab new"
proof (cases "f_de_state f")
  case None
  then show ?thesis by (auto simp: continue_flow_with_def walk_log_def intro: exI [of _ "[]"])
next
  case (Some de_state)
  let ?g = "inspect_rule_logged fi (dir_flags (idx2 de_state (dir_index flags))) f alproto flags"
  obtain ab store1 sc1 d1 where w: "inspect_store ?g (unat (cnt (idx2 de_state (dir_index flags))))
        (head (idx2 de_state (dir_index flags))) sc d = (ab, store1, sc1, d1)"
    using prod_cases4 by blast
  have "\<exists>new. inspected d1 = inspected d @ new \<and> walk_log ab new"
    by (rule inspect_store_log [where f = ?g and lg = inspected, OF _ w])
       (erule inspect_rule_logged_step)
  moreover have "fst (continue_flow_with fi flags alproto alversion (d, f, fnm, sc)) = d1"
    using Some w by (simp add: continue_flow_with_def Let_def)
  ultimately show ?thesis by auto
qed

lemma walk_log_last:
  assumes "walk_log ab new" and "i < length new" and "insp_result (new ! i) < 0"
  shows "Suc i = length new"
proof (cases ab)
  case False
  with assms show ?thesis by (auto simp: walk_log_def list_all_length)
next
  case True
  with assms(1) have ne: "new \<noteq> []" and b: "list_all (\<lambda>e. 0 \<le> insp_result e) (butlast new)"
    by (simp_all add: walk_log_def)
  show ?thesis
  proof (rule ccontr)
    assume "Suc i \<noteq> length new"
    with assms(2) have "i < length (butlast new)" by simp
    with b have "0 \<le> insp_result (butlast new ! i)" by (simp add: list_all_length)
    then show False using assms(3) \<open>i < length (butlast new)\<close> by (simp add: nth_butlast)
  qed
qed

lemma continue_detection_with_log:
  "\<exists>new ab. inspected (fst (DeStateDetectContinueDetection_with ii fi det_ctx f flags alproto alversion))
      = inspected det_ctx @ new \<and> walk_log ab new"
proof -
  have triv: "\<exists>new ab. inspected det_ctx = inspected det_ctx @ new \<and> walk_log ab new"
    by (auto simp: walk_log_def intro: exI [of _ "[]"])
  show ?thesis
  proof (cases "ProtocolSupportsTxs f alproto")
    case False
    with continue_flow_with_log [of fi flags alproto alversion det_ctx f 0 0]
    show ?thesis by (simp add: DeStateDetectContinueDetection_with_def)
  next
    case True
    show ?thesis
    proof (cases "StateIsValid alproto (f_alstate f)")
      case False
      with True triv show ?thesis by (simp add: DeStateDetectContinueDetection_with_def)
    next
      case valid: True
      then obtain alstate where al: "f_alstate f = Some alstate"
        by (auto simp: StateIsValid_def split: option.splits)
      let ?r = "continue_txs_with ii flags alproto (AppLayerParserGetTxCnt alstate)
                  [inspect_id f flags ..< AppLayerParserGetTxCnt alstate] (det_ctx, f, 0, 0)"
      from continue_txs_with_log [of ii flags alproto "AppLayerParserGetTxCnt alstate"
          "[inspect_id f flags ..< AppLayerParserGetTxCnt alstate]" "(det_ctx, f, 0, 0)"]
      obtain new1 where n1: "inspected (fst (ctl_state ?r)) = inspected det_ctx @ new1"
        "walk_log (ctl_end ?r) new1" by auto
      have go: "\<exists>new ab. inspected (fst (continue_flow_with fi flags alproto alversion st))
                  = inspected det_ctx @ new \<and> walk_log ab new"
        if "inspected (fst st) = inspected det_ctx @ new1" "walk_log False new1" for st
      proof -
        obtain d1 f1 fnm1 sc1 where st: "st = (d1, f1, fnm1, sc1)" using prod_cases4 by blast
        from continue_flow_with_log [of fi flags alproto alversion d1 f1 fnm1 sc1]
        obtain new2 ab where "inspected (fst (continue_flow_with fi flags alproto alversion st))
            = inspected d1 @ new2" "walk_log ab new2" unfolding st by blast
        with that st walk_log_append [OF that(2), of ab new2] show ?thesis by auto
      qed
      show ?thesis
      proof (cases ?r)
        case (Next st)
        with n1 go [of st] True valid al show ?thesis
          by (simp add: DeStateDetectContinueDetection_with_def ctl_state_def ctl_end_def)
      next
        case (Break st)
        with n1 go [of st] True valid al show ?thesis
          by (simp add: DeStateDetectContinueDetection_with_def ctl_state_def ctl_end_def)
      next
        case (End st)
        obtain d1 f1 fnm1 sc1 where st: "st = (d1, f1, fnm1, sc1)" using prod_cases4 by blast
        with End n1 True valid al show ?thesis
          by (auto simp: DeStateDetectContinueDetection_with_def ctl_state_def ctl_end_def)
      qed
    qed
  qed
qed

lemma inspect_item_logged_DoInspectItem:
  "inspect_item_logged (DoInspectItem de_ctx) = DoInspectItem_logged de_ctx"
proof (intro ext)
  fix dsf and f :: "'a Flow" and alproto flags tx_id total_txs inprog nnp item
    and s :: "DetectEngineThreadCtx \<times> 16 word"
  obtain d0 fnm0 where s: "s = (d0, fnm0)" by (cases s)
  obtain r1 i1 d1 fnm1 where di:
    "DoInspectItem de_ctx dsf f alproto flags tx_id total_txs inprog nnp item (d0, fnm0) = (r1, i1, d1, fnm1)"
    using prod_cases4 by blast
  from DoInspectItem_inspected [OF di] have "inspected d1 = inspected d0" .
  with s di show "inspect_item_logged (DoInspectItem de_ctx) dsf f alproto flags tx_id total_txs inprog nnp item s
      = DoInspectItem_logged de_ctx dsf f alproto flags tx_id total_txs inprog nnp item s"
    by (simp add: inspect_item_logged_def DoInspectItem_logged_def)
qed

lemma inspect_rule_logged_DoInspectFlowRule:
  "inspect_rule_logged (DoInspectFlowRule de_ctx) = DoInspectFlowRule_logged de_ctx"
proof (intro ext)
  fix dsf and f :: "'a Flow" and alproto flags rule d
  obtain r1 i1 d1 where di: "DoInspectFlowRule de_ctx dsf f alproto flags rule d = (r1, i1, d1)"
    using prod_cases3 by blast
  from DoInspectFlowRule_inspected [OF di] have "inspected d1 = inspected d" .
  with di show "inspect_rule_logged (DoInspectFlowRule de_ctx) dsf f alproto flags rule d
      = DoInspectFlowRule_logged de_ctx dsf f alproto flags rule d"
    by (simp add: inspect_rule_logged_def DoInspectFlowRule_logged_def)
qed

lemma continue_tx_with_DoInspectItem:
  "continue_tx_with (DoInspectItem de_ctx) flags alproto total_txs tx_id st
     = continue_tx de_ctx flags alproto total_txs tx_id st"
  unfolding continue_tx_with_def continue_tx_def inspect_item_logged_DoInspectItem by (rule refl)

lemma continue_txs_with_DoInspectItem:
  "continue_txs_with (DoInspectItem de_ctx) flags alproto total_txs ids st
     = continue_txs de_ctx flags alproto total_txs ids st"
  by (induction ids arbitrary: st) (simp_all add: continue_tx_with_DoInspectItem split: ctl.splits)

lemma continue_flow_with_DoInspectFlowRule:
  "continue_flow_with (DoInspectFlowRule de_ctx) flags alproto alversion st
     = continue_flow de_ctx flags alproto alversion st"
  unfolding continue_flow_with_def continue_flow_def inspect_rule_logged_DoInspectFlowRule
  by (rule refl)

lemma continue_detection_with_inspectors:
  "DeStateDetectContinueDetection_with (DoInspectItem de_ctx) (DoInspectFlowRule de_ctx)
       det_ctx f flags alproto alversion
     = DeStateDetectContinueDetection de_ctx det_ctx f flags alproto alversion"
  unfolding DeStateDetectContinueDetection_with_def DeStateDetectContinueDetection_def
    continue_txs_with_DoInspectItem continue_flow_with_DoInspectFlowRule
  by (rule refl)

lemma DoInspectItem_run_neg:
  "fst (DoInspectItem_run de_ctx f alproto flags tx_id total_txs item fl st) < 0 \<Longrightarrow>
     \<not> StateIsValid alproto (f_alstate f) \<or>
     (case f_alstate f of None \<Rightarrow> True | Some alstate \<Rightarrow> AppLayerParserGetTx alstate tx_id = None)"
  by (cases st) (auto simp: DoInspectItem_run_def Let_def split: option.splits prod.splits)

lemma DoInspectItem_neg:
  "fst (DoInspectItem de_ctx dsf f alproto flags tx_id total_txs inprog nnp item st) < 0 \<Longrightarrow>
     \<not> StateIsValid alproto (f_alstate f) \<or>
     (case f_alstate f of None \<Rightarrow> True | Some alstate \<Rightarrow> AppLayerParserGetTx alstate tx_id = None)"
  unfolding DoInspectItem_def Let_def
  by (cases st) (auto split: option.splits if_splits dest: DoInspectItem_run_neg)

lemma DoInspectFlowRule_neg:
  "fst (DoInspectFlowRule de_ctx dsf f alproto flags rule d) < 0 \<Longrightarrow> f_alstate f = None"
  by (auto simp: DoInspectFlowRule_def Let_def split: option.splits prod.splits if_splits)

text \<open>
  Claim C9.  The continue driver is taken with its two inspectors as parameters, so that
  the statement does not rest on what \<open>DoInspectItem\<close> and \<open>DoInspectFlowRule\<close> can return
  when they are called on the state the driver has just looked at.  In the inspector calls
  of one call of the driver, a call that returned a negative result is the last one: no
  record, transactional or flow-scoped, is inspected after it.  The driver of the source is
  the instance at \<open>DoInspectItem de_ctx\<close> and \<open>DoInspectFlowRule de_ctx\<close>, so the same holds
  of it.  \<open>DoInspectItem\<close> returns a negative result only when the application-layer state
  is invalid or the transaction cannot be retrieved, \<open>DoInspectFlowRule\<close> only when the
  application-layer state is \<open>NULL\<close>.
\<close>

theorem inspector_failure_aborts:
  "(\<exists>new. inspected (fst (DeStateDetectContinueDetection_with inspect_item inspect_rule det_ctx f
                            flags alproto alversion))
       = inspected det_ctx @ new \<and>
       (\<forall>i < length new. insp_result (new ! i) < 0 \<longrightarrow> Suc i = length new)) \<and>
   DeStateDetectContinueDetection de_ctx det_ctx f flags alproto alversion
     = DeStateDetectContinueDetection_with (DoInspectItem de_ctx) (DoInspectFlowRule de_ctx)
         det_ctx f flags alproto alversion \<and>
   (\<exists>new. inspected (fst (DeStateDetectContinueDetection de_ctx det_ctx f flags alproto alversion))
       = inspected det_ctx @ new \<and>
       (\<forall>i < length new. insp_result (new ! i) < 0 \<longrightarrow> Suc i = length new)) \<and>
   (fst (DoInspectItem de_ctx dsf f alproto flags tx_id total_txs inprog nnp item st) < 0 \<longrightarrow>
      \<not> StateIsValid alproto (f_alstate f) \<or>
      (case f_alstate f of None \<Rightarrow> True | Some alstate \<Rightarrow> AppLayerParserGetTx alstate tx_id = None)) \<and>
   (fst (DoInspectFlowRule de_ctx dsf f alproto flags rule d) < 0 \<longrightarrow> f_alstate f = None)"
proof -
  have g: "\<exists>new. inspected (fst (DeStateDetectContinueDetection_with ii fi det_ctx f
                            flags alproto alversion))
       = inspected det_ctx @ new \<and>
       (\<forall>i < length new. insp_result (new ! i) < 0 \<longrightarrow> Suc i = length new)"
    for ii :: "'a item_inspector" and fi :: "'a rule_inspector"
  proof -
    from continue_detection_with_log [of ii fi det_ctx f flags alproto alversion]
    obtain new ab where n:
      "inspected (fst (DeStateDetectContinueDetection_with ii fi det_ctx f flags alproto alversion))
         = inspected det_ctx @ new" "walk_log ab new" by blast
    have "\<forall>i < length new. insp_result (new ! i) < 0 \<longrightarrow> Suc i = length new"
      using walk_log_last [OF n(2)] by blast
    with n(1) show ?thesis by blast
  qed
  note e = continue_detection_with_inspectors [of de_ctx det_ctx f flags alproto alversion]
  from g [of "DoInspectItem de_ctx" "DoInspectFlowRule de_ctx"]
  have a: "\<exists>new. inspected (fst (DeStateDetectContinueDetection de_ctx det_ctx f flags alproto alversion))
       = inspected det_ctx @ new \<and>
       (\<forall>i < length new. insp_result (new ! i) < 0 \<longrightarrow> Suc i = length new)"
    unfolding e .
  have b: "fst (DoInspectItem de_ctx dsf f alproto flags tx_id total_txs inprog nnp item st) < 0 \<longrightarrow>
      \<not> StateIsValid alproto (f_alstate f) \<or>
      (case f_alstate f of None \<Rightarrow> True | Some alstate \<Rightarrow> AppLayerParserGetTx alstate tx_id = None)"
    using DoInspectItem_neg by blast
  have c: "fst (DoInspectFlowRule de_ctx dsf f alproto flags rule d) < 0 \<longrightarrow> f_alstate f = None"
    using DoInspectFlowRule_neg by blast
  show ?thesis
    apply (rule conjI [OF g])
    apply (rule conjI [OF e [symmetric]])
    apply (rule conjI [OF a])
    apply (rule conjI [OF b])
    apply (rule c)
    done
qed

theorem inspector_failure_aborts_witness:
  "inspected (fst (DeStateDetectContinueDetection de_ctx0 det_ctx0 two_tx_flow STREAM_TOSERVER
                     ALPROTO_HTTP 1))
     = [InspectItem 0 1 1, InspectItem 0 2 1, InspectItem 1 1 1, InspectFlowRule 7 1] \<and>
   (\<exists>new. inspected (fst (DeStateDetectContinueDetection_with (DoInspectItem_state_gone de_ctx0)
                             (DoInspectFlowRule de_ctx0) det_ctx0 two_tx_flow STREAM_TOSERVER
                             ALPROTO_HTTP 1))
            = inspected det_ctx0 @ new \<and>
          new = [InspectItem 0 1 (- 1)] \<and> insp_result (new ! 0) < 0 \<and> Suc 0 = length new) \<and>
   cnt (idx2 (two_rules, empty_dir) (dir_index STREAM_TOSERVER)) = 2 \<and>
   (\<exists>new. inspected (fst (DeStateDetectContinueDetection de_ctx0 det_ctx0
               (bare_flow (Some (two_rules, empty_dir))) STREAM_TOSERVER (ALPROTO_OTHER 0) 1))
            = inspected det_ctx0 @ new \<and>
          new = [InspectFlowRule 7 (- 1)] \<and> insp_result (new ! 0) < 0 \<and> Suc 0 = length new) \<and>
   fst (DoInspectFlowRule de_ctx0 0 (bare_flow (Some (two_rules, empty_dir))) (ALPROTO_OTHER 0)
          STREAM_TOSERVER rule7 det_ctx0) < 0 \<and>
   f_alstate (bare_flow (Some (two_rules, empty_dir))) = None"
proof -
  let ?f = "bare_flow (Some (two_rules, empty_dir))"
  have all: "inspected (fst (DeStateDetectContinueDetection de_ctx0 det_ctx0 two_tx_flow STREAM_TOSERVER
                     ALPROTO_HTTP 1))
     = [InspectItem 0 1 1, InspectItem 0 2 1, InspectItem 1 1 1, InspectFlowRule 7 1]"
    by code_simp
  have gone: "inspected (fst (DeStateDetectContinueDetection_with (DoInspectItem_state_gone de_ctx0)
                             (DoInspectFlowRule de_ctx0) det_ctx0 two_tx_flow STREAM_TOSERVER
                             ALPROTO_HTTP 1)) = [InspectItem 0 1 (- 1)]"
    by code_simp
  have c: "cnt (idx2 (two_rules, empty_dir) (dir_index STREAM_TOSERVER)) = 2" by code_simp
  have e: "inspected (fst (DeStateDetectContinueDetection de_ctx0 det_ctx0 ?f STREAM_TOSERVER
                (ALPROTO_OTHER 0) 1)) = [InspectFlowRule 7 (- 1)]" by code_simp
  have z: "inspected det_ctx0 = []" by (simp add: det_ctx0_def)
  have r: "fst (DoInspectFlowRule de_ctx0 0 ?f (ALPROTO_OTHER 0) STREAM_TOSERVER rule7 det_ctx0) < 0"
    by code_simp
  from inspector_failure_aborts [where de_ctx = de_ctx0 and det_ctx = det_ctx0 and f = ?f
      and flags = STREAM_TOSERVER and alproto = "ALPROTO_OTHER 0" and alversion = 1 and dsf = 0
      and rule = rule7 and d = det_ctx0]
  obtain new where n: "inspected (fst (DeStateDetectContinueDetection de_ctx0 det_ctx0 ?f STREAM_TOSERVER
                (ALPROTO_OTHER 0) 1)) = inspected det_ctx0 @ new"
    and l: "\<forall>i < length new. insp_result (new ! i) < 0 \<longrightarrow> Suc i = length new"
    and fr: "fst (DoInspectFlowRule de_ctx0 0 ?f (ALPROTO_OTHER 0) STREAM_TOSERVER rule7 det_ctx0) < 0
               \<longrightarrow> f_alstate ?f = None"
    by blast
  from n e z have new: "new = [InspectFlowRule 7 (- 1)]" by simp
  then have neg: "insp_result (new ! 0) < 0" by (simp add: insp_result_def)
  from l new neg have len: "Suc 0 = length new" by simp
  from inspector_failure_aborts [where inspect_item = "DoInspectItem_state_gone de_ctx0"
      and inspect_rule = "DoInspectFlowRule de_ctx0" and det_ctx = det_ctx0 and f = two_tx_flow
      and flags = STREAM_TOSERVER and alproto = ALPROTO_HTTP and alversion = 1]
  obtain new2 where n2: "inspected (fst (DeStateDetectContinueDetection_with
                (DoInspectItem_state_gone de_ctx0) (DoInspectFlowRule de_ctx0) det_ctx0 two_tx_flow
                STREAM_TOSERVER ALPROTO_HTTP 1)) = inspected det_ctx0 @ new2"
    and l2: "\<forall>i < length new2. insp_result (new2 ! i) < 0 \<longrightarrow> Suc i = length new2"
    by blast
  from n2 gone z have new2: "new2 = [InspectItem 0 1 (- 1)]" by simp
  then have neg2: "insp_result (new2 ! 0) < 0" by (simp add: insp_result_def)
  from l2 new2 neg2 have len2: "Suc 0 = length new2" by simp
  from all n2 new2 neg2 len2 c n new neg len r fr show ?thesis by blast
qed

subsection \<open>The terminal flags of a stored record\<close>

lemma and_not_self [simp]: "(x AND NOT a) AND a = (0 :: 'a :: len word)"
  by (simp add: and.assoc)

lemma or_and_nonzero: "x AND b \<noteq> 0 \<Longrightarrow> (x OR y) AND b \<noteq> (0 :: 'a :: len word)"
  by (simp add: bit.conj_disj_distrib2 or_eq_0_iff)

lemma flag_bits [simp]:
  "DE_STATE_FLAG_FILE_TC_INSPECT AND DE_STATE_FLAG_FULL_INSPECT = 0"
  "DE_STATE_FLAG_FILE_TS_INSPECT AND DE_STATE_FLAG_FULL_INSPECT = 0"
  "DE_STATE_FLAG_FILE_TC_INSPECT AND DE_STATE_FLAG_SIG_CANT_MATCH = 0"
  "DE_STATE_FLAG_FILE_TS_INSPECT AND DE_STATE_FLAG_SIG_CANT_MATCH = 0"
  "DE_STATE_FLAG_FULL_INSPECT AND DE_STATE_FLAG_SIG_CANT_MATCH = 0"
  "DE_STATE_FLAG_FILE_TC_INSPECT AND DE_STATE_FLAG_FILE_TS_INSPECT = 0"
  by (simp_all add: DE_STATE_FLAG_FILE_TC_INSPECT_def DE_STATE_FLAG_FILE_TS_INSPECT_def
      DE_STATE_FLAG_FULL_INSPECT_def DE_STATE_FLAG_SIG_CANT_MATCH_def)

lemma and_not_other:
  assumes "a AND b = 0"
  shows "(x AND NOT a) AND b = x AND (b :: 'a :: len word)"
proof (rule bit_eqI)
  fix n
  from assms have "\<not> (bit a n \<and> bit b n)"
    by (metis bit_and_iff bit_0_eq bot_apply bot_bool_def)
  then show "bit ((x AND NOT a) AND b) n = bit (x AND b) n"
    by (auto simp: bit_and_iff bit_not_iff dest: bit_imp_possible_bit)
qed

lemma has_FULL: "(x AND DE_STATE_FLAG_FULL_INSPECT \<noteq> 0) = bit x 15"
  using and_exp_eq_0_iff_not_bit [of x 15] by (simp add: DE_STATE_FLAG_FULL_INSPECT_def)

lemma has_CANT: "(x AND DE_STATE_FLAG_SIG_CANT_MATCH \<noteq> 0) = bit x 16"
  using and_exp_eq_0_iff_not_bit [of x 16] by (simp add: DE_STATE_FLAG_SIG_CANT_MATCH_def)

lemma has_TS: "(x AND DE_STATE_FLAG_FILE_TS_INSPECT \<noteq> 0) = bit x 14"
  using and_exp_eq_0_iff_not_bit [of x 14] by (simp add: DE_STATE_FLAG_FILE_TS_INSPECT_def)

lemma has_TC: "(x AND DE_STATE_FLAG_FILE_TC_INSPECT \<noteq> 0) = bit x 13"
  using and_exp_eq_0_iff_not_bit [of x 13] by (simp add: DE_STATE_FLAG_FILE_TC_INSPECT_def)

lemma has_file: "(x AND (DE_STATE_FLAG_FILE_TC_INSPECT OR DE_STATE_FLAG_FILE_TS_INSPECT) \<noteq> 0)
    = (bit x 13 \<or> bit x 14)"
  using has_TS [of x] has_TC [of x] by (simp add: bit.conj_disj_distrib or_eq_0_iff)

lemma bit_FULL: "bit DE_STATE_FLAG_FULL_INSPECT n = (n = 15)"
  using bit_exp_iff [where ?'a = "32 word", of 15 n]
  by (auto simp: DE_STATE_FLAG_FULL_INSPECT_def)

lemma bit_CANT: "bit DE_STATE_FLAG_SIG_CANT_MATCH n = (n = 16)"
  using bit_exp_iff [where ?'a = "32 word", of 16 n]
  by (auto simp: DE_STATE_FLAG_SIG_CANT_MATCH_def)

lemma bit_TS: "bit DE_STATE_FLAG_FILE_TS_INSPECT n = (n = 14)"
  using bit_exp_iff [where ?'a = "32 word", of 14 n]
  by (auto simp: DE_STATE_FLAG_FILE_TS_INSPECT_def)

lemma bit_TC: "bit DE_STATE_FLAG_FILE_TC_INSPECT n = (n = 13)"
  using bit_exp_iff [where ?'a = "32 word", of 13 n]
  by (auto simp: DE_STATE_FLAG_FILE_TC_INSPECT_def)

lemmas bit_flags = bit_FULL bit_CANT bit_TS bit_TC bit_and_iff bit_or_iff bit_not_iff
lemmas has_flags = has_FULL has_CANT has_TS has_TC has_file

lemma not_has: "(x AND b = 0) = (\<not> (x AND b \<noteq> 0))" by simp

lemma reopen_full_bits:
  "bit (reopen_full_inspect fl flags dsf) n =
     (bit fl n \<and>
      \<not> ((bit fl 13 \<or> bit fl 14) \<and>
         ((tc_new_file flags dsf \<and> (n = 13 \<or> n = 15)) \<or> (ts_new_file flags dsf \<and> (n = 14 \<or> n = 15)))))"
  unfolding reopen_full_inspect_def Let_def has_flags tc_new_file_def [symmetric] ts_new_file_def [symmetric]
  by (auto simp: bit_flags dest: bit_imp_possible_bit)

lemma reopen_cant_bits:
  "reopen_cant_match fl flags dsf =
     (if ts_new_file flags dsf \<and> bit fl 14 then
        Some ((fl AND NOT DE_STATE_FLAG_FILE_TS_INSPECT) AND NOT DE_STATE_FLAG_SIG_CANT_MATCH)
      else if tc_new_file flags dsf \<and> bit fl 13 then
        Some ((fl AND NOT DE_STATE_FLAG_FILE_TC_INSPECT) AND NOT DE_STATE_FLAG_SIG_CANT_MATCH)
      else None)"
  unfolding reopen_cant_match_def has_flags ts_new_file_def tc_new_file_def by auto

lemma reopened_sub: "bit (reopened_flags fl flags dsf) n \<Longrightarrow> bit fl n"
  unfolding reopened_flags_def Let_def has_flags reopen_cant_bits
  by (auto simp: bit_flags reopen_full_bits split: if_splits)

















lemma flow_tx_set_tx:
  "flow_tx f tid = Some tx0 \<Longrightarrow>
     flow_tx (set_tx f tid tx) t = (if t = tid then Some tx else flow_tx f t)"
  by (auto simp: flow_tx_def set_tx_def AppLayerParserGetTx_def split: option.splits if_splits)

lemma idx2_upd2 [simp]: "idx2 (upd2 a i v) i = v"
  by (simp add: idx2_def upd2_def)










subsection \<open>What the start driver persists\<close>


lemma store_wf_inv: "store_wf ds \<Longrightarrow> store_inv ds (DirStateIter ds)"
proof -
  assume w: "store_wf ds"
  then have u: "\<forall>c \<in> set (head ds). length c = DE_STATE_CHUNK_SIZE"
    and l: "(unat (cnt ds) + 14) div DE_STATE_CHUNK_SIZE \<le> length (head ds)"
    by (simp_all add: store_wf_def)
  have "unat (cnt ds) \<le> length (head ds) * DE_STATE_CHUNK_SIZE"
    using l unfolding DE_STATE_CHUNK_SIZE_def by arith
  then have "unat (cnt ds) \<le> length (concat (head ds))"
    using length_concat_uniform [OF u] by simp
  then have "unat (cnt ds) = length (take (unat (cnt ds)) (concat (head ds)))" by simp
  with u l show ?thesis
    unfolding store_inv_def DirStateIter_take by blast
qed

lemma store_inv_wf: "store_inv ds recs \<Longrightarrow> store_wf ds \<and> DirStateIter ds = recs"
  unfolding store_inv_def store_wf_def DirStateIter_take by blast

lemma store_wf_empty: "store_wf empty_dir"
  by (simp add: store_wf_def empty_dir_def DE_STATE_CHUNK_SIZE_def)

lemma DirStateIter_empty: "DirStateIter empty_dir = []"
  by (simp add: DirStateIter_take empty_dir_def)

lemma store_room_empty: "store_room (empty_dir :: ('i, 'w::len) DirState)"
proof -
  have "(1 :: nat) < 2 ^ LENGTH('w)"
    by (metis len_gt_0 one_less_numeral_iff one_less_power semiring_norm(76))
  then show ?thesis by (simp add: store_room_def empty_dir_def)
qed

lemma store_append_wf:
  assumes w: "store_wf ds" and a: "alloc_wf alloc" and room: "store_room ds"
  shows "\<exists>ds'. store_append ds r alloc = Inr ds' \<and> store_wf ds' \<and>
           DirStateIter ds' = DirStateIter ds @ (if append_allocates ds \<and> alloc = None then [] else [r]) \<and>
           filestore_cnt ds' = filestore_cnt ds \<and> dir_flags ds' = dir_flags ds"
proof -
  from store_wf_inv [OF w] have "unat (cnt ds) = length (DirStateIter ds)"
    by (simp add: store_inv_def)
  with room have r1: "length (DirStateIter ds) + 1 < 2 ^ LENGTH('b)"
    by (simp add: store_room_def)
  from store_append_inv [OF store_wf_inv [OF w] a r1, of r] obtain ds' where
    e: "store_append ds r alloc = Inr ds'"
    and i: "store_inv ds' (DirStateIter ds @ (if append_allocates ds \<and> alloc = None then [] else [r]))"
    by blast
  have "filestore_cnt ds' = filestore_cnt ds \<and> dir_flags ds' = dir_flags ds"
    using e by (auto simp: store_append_def store_write_def Let_def split: if_splits option.splits)
  with e store_inv_wf [OF i] show ?thesis by blast
qed

lemma flow_tx_SomeD:
  "flow_tx f t = Some tx \<Longrightarrow> \<exists>al. f_alstate f = Some al \<and> t < length (txs al) \<and> txs al ! t = Some tx"
  by (auto simp: flow_tx_def AppLayerParserGetTx_def split: option.splits if_splits)

lemma parser_view_set_tx:
  assumes "flow_tx f t = Some tx"
  shows "parser_view (set_tx f t (tx\<lparr>detect_state := x\<rparr>)) = parser_view f"
proof -
  from flow_tx_SomeD [OF assms] obtain al where al: "f_alstate f = Some al"
    and t: "t < length (txs al)" and tx: "txs al ! t = Some tx" by blast
  let ?g = "map_option (\<lambda>tx. tx\<lparr>detect_state := None\<rparr>)"
  have "map ?g ((txs al)[t := Some (tx\<lparr>detect_state := x\<rparr>)]) = (map ?g (txs al))[t := ?g (txs al ! t)]"
    by (simp add: map_update tx)
  also have "\<dots> = map ?g (txs al)"
    using t by (simp add: list_update_same_conv)
  finally show ?thesis
    using al by (simp add: parser_view_def set_tx_def)
qed

lemma parser_view_version [simp]:
  "parser_view (DeStateStoreStateVersion f v fl) = parser_view f"
  by (simp add: parser_view_def DeStateStoreStateVersion_def)

lemma flow_tx_version [simp]: "flow_tx (DeStateStoreStateVersion f v fl) t = flow_tx f t"
  by (simp add: flow_tx_def DeStateStoreStateVersion_def)

lemma set_tx_version:
  "set_tx (DeStateStoreStateVersion f v fl) t tx = DeStateStoreStateVersion (set_tx f t tx) v fl"
  by (simp add: set_tx_def DeStateStoreStateVersion_def split: option.splits)

lemma HandleFiles_store:
  "StoreStateTxHandleFiles de_ctx d destate flags t fnm = (d', destate') \<Longrightarrow>
     head (idx2 destate' (dir_index flags)) = head (idx2 destate (dir_index flags)) \<and>
     cnt (idx2 destate' (dir_index flags)) = cnt (idx2 destate (dir_index flags)) \<and>
     alerts d' = alerts d \<and> inspected d' = inspected d"
  by (auto simp: StoreStateTxHandleFiles_def DeStateStoreFileNoMatchCnt_def Let_def idx2_upd2
      split: if_splits)

lemma DirStateIter_cong:
  "head a = head b \<Longrightarrow> cnt a = cnt b \<Longrightarrow> DirStateIter a = DirStateIter b"
  by (simp add: DirStateIter_take)

lemma store_wf_cong: "head a = head b \<Longrightarrow> cnt a = cnt b \<Longrightarrow> store_wf a = store_wf b"
  by (simp add: store_wf_def)

lemma tx_destate_cases:
  assumes "set_tx_state_ok heap t"
  shows "tx_destate heap t tx =
           Inr (case detect_state tx of
                  Some de \<Rightarrow> Some de
                | None \<Rightarrow> if tx_state_alloc_ok heap t then Some (empty_dir, empty_dir) else None)"
  using assms by (simp add: tx_destate_def DetectEngineStateAlloc_def split: option.splits)

lemma tx_store_Some [simp]: "tx_store (tx\<lparr>detect_state := Some de\<rparr>) i = idx2 de i"
  by (simp add: tx_store_def)

lemma idx2_empty [simp]: "idx2 (empty_dir, empty_dir) i = empty_dir"
  by (simp add: idx2_def)

lemma f_de_state_set_tx: "f_de_state (set_tx f t tx) = f_de_state f"
  by (simp add: set_tx_def split: option.splits)

lemma f_de_state_version [simp]: "f_de_state (DeStateStoreStateVersion f v fl) = f_de_state f"
  by (simp add: DeStateStoreStateVersion_def)

lemma set_tx_result:
  assumes ft: "flow_tx f t = Some tx"
    and h: "head (idx2 de2 i) = head ds1" and c: "cnt (idx2 de2 i) = cnt ds1"
    and w: "store_wf ds1" and it: "DirStateIter ds1 = recs"
  shows "parser_view (set_tx f t (tx\<lparr>detect_state := Some de2\<rparr>)) = parser_view f \<and>
         f_de_state (set_tx f t (tx\<lparr>detect_state := Some de2\<rparr>)) = f_de_state f \<and>
         (\<forall>t'. t' \<noteq> t \<longrightarrow> flow_tx (set_tx f t (tx\<lparr>detect_state := Some de2\<rparr>)) t' = flow_tx f t') \<and>
         (\<exists>tx'. flow_tx (set_tx f t (tx\<lparr>detect_state := Some de2\<rparr>)) t = Some tx' \<and>
                store_wf (tx_store tx' i) \<and> DirStateIter (tx_store tx' i) = recs)"
proof -
  have a: "store_wf (idx2 de2 i)" using store_wf_cong [OF h c] w by simp
  have b: "DirStateIter (idx2 de2 i) = recs" using DirStateIter_cong [OF h c] it by simp
  show ?thesis
    using a b by (simp add: parser_view_set_tx [OF ft] flow_tx_set_tx [OF ft] f_de_state_set_tx)
qed

lemma StoreStateTx_records:
  assumes ft: "flow_tx f t = Some tx"
    and w: "store_wf (tx_store tx (dir_index flags))"
    and so: "set_tx_state_ok heap t"
    and room: "store_room (tx_store tx (dir_index flags))"
  shows "\<exists>d' f'. StoreStateTx de_ctx heap d f flags alversion t tx s ifl fnm = Inr (d', f') \<and>
           parser_view f' = parser_view f \<and> f_de_state f' = f_de_state f \<and> alerts d' = alerts d \<and>
           (\<forall>t'. t' \<noteq> t \<longrightarrow> flow_tx f' t' = flow_tx f t') \<and>
           (\<exists>tx'. flow_tx f' t = Some tx' \<and> store_wf (tx_store tx' (dir_index flags)) \<and>
              DirStateIter (tx_store tx' (dir_index flags))
                = DirStateIter (tx_store tx (dir_index flags))
                  @ (if can_store heap f t tx (dir_index flags)
                     then [\<lparr>item_sid = num s, item_flags = ifl\<rparr>] else []))"
proof -
  let ?i = "dir_index flags"
  have same: "\<exists>tx'. flow_tx f t = Some tx' \<and> store_wf (tx_store tx' ?i) \<and>
      DirStateIter (tx_store tx' ?i) = DirStateIter (tx_store tx ?i) @ []"
    using ft w by simp
  show ?thesis
  proof (cases "SupportsTxDetectState f (f_alproto f)")
    case False
    then show ?thesis using same by (simp add: StoreStateTx_def can_store_def)
  next
    case sup: True
    show ?thesis
    proof (cases "detect_state tx = None \<and> \<not> tx_state_alloc_ok heap t")
      case True
      with sup so same show ?thesis
        by (simp add: StoreStateTx_def can_store_def tx_destate_cases)
    next
      case False
      define de where "de = (case detect_state tx of Some de \<Rightarrow> de | None \<Rightarrow> (empty_dir, empty_dir))"
      have td: "tx_destate heap t tx = Inr (Some de)"
        using False so by (auto simp: tx_destate_cases de_def split: option.splits)
      have st: "idx2 de ?i = tx_store tx ?i"
        by (simp add: de_def tx_store_def split: option.splits)
      have cs: "can_store heap f t tx ?i
                  = (append_allocates (tx_store tx ?i) \<longrightarrow> tx_chunk_alloc_ok heap t)"
        using sup False by (auto simp: can_store_def)
      let ?r = "\<lparr>item_sid = num s, item_flags = ifl\<rparr>"
      from store_append_wf [OF w alloc_wf_DeStateStoreAlloc room, of ?r "tx_chunk_alloc_ok heap t"]
      obtain ds1 where ap: "store_append (tx_store tx ?i) ?r (DeStateStoreAlloc (tx_chunk_alloc_ok heap t)) = Inr ds1"
        and w1: "store_wf ds1"
        and it: "DirStateIter ds1 = DirStateIter (tx_store tx ?i)
                    @ (if can_store heap f t tx ?i then [?r] else [])"
        unfolding cs by (auto simp: DeStateStoreAlloc_None)
      have sa: "DeStateSignatureAppend de s ifl flags (tx_chunk_alloc_ok heap t) = Inr (upd2 de ?i ds1)"
        using ap by (simp add: DeStateSignatureAppend_def st)
      obtain d' de2 where hf: "StoreStateTxHandleFiles de_ctx d (upd2 de ?i ds1) flags t fnm = (d', de2)"
        by (cases "StoreStateTxHandleFiles de_ctx d (upd2 de ?i ds1) flags t fnm")
      from HandleFiles_store [OF hf]
      have h: "head (idx2 de2 ?i) = head ds1" and c: "cnt (idx2 de2 ?i) = cnt ds1"
        and al: "alerts d' = alerts d"
        by (simp_all add: idx2_upd2)
      have res: "StoreStateTx de_ctx heap d f flags alversion t tx s ifl fnm
          = Inr (d', DeStateStoreStateVersion (set_tx f t (tx\<lparr>detect_state := Some de2\<rparr>)) alversion flags)"
        using sup td sa hf by (simp add: StoreStateTx_def set_tx_version)
      from set_tx_result [OF ft h c w1 it] al show ?thesis
        unfolding res by simp
    qed
  qed
qed

lemma StoreStateTxFileOnly_records:
  assumes ft: "flow_tx f t = Some tx"
    and w: "store_wf (tx_store tx (dir_index flags))"
    and so: "set_tx_state_ok heap t"
  shows "\<exists>d' f'. StoreStateTxFileOnly de_ctx heap d f flags t tx fnm = Inr (d', f') \<and>
           parser_view f' = parser_view f \<and> f_de_state f' = f_de_state f \<and> alerts d' = alerts d \<and>
           (\<forall>t'. t' \<noteq> t \<longrightarrow> flow_tx f' t' = flow_tx f t') \<and>
           (\<exists>tx'. flow_tx f' t = Some tx' \<and> store_wf (tx_store tx' (dir_index flags)) \<and>
              DirStateIter (tx_store tx' (dir_index flags))
                = DirStateIter (tx_store tx (dir_index flags)))"
proof -
  let ?i = "dir_index flags"
  have same: "\<exists>tx'. flow_tx f t = Some tx' \<and> store_wf (tx_store tx' ?i) \<and>
      DirStateIter (tx_store tx' ?i) = DirStateIter (tx_store tx ?i)"
    using ft w by simp
  show ?thesis
  proof (cases "SupportsTxDetectState f (f_alproto f)")
    case False
    then show ?thesis using same by (simp add: StoreStateTxFileOnly_def)
  next
    case sup: True
    show ?thesis
    proof (cases "detect_state tx = None \<and> \<not> tx_state_alloc_ok heap t")
      case True
      with sup so same show ?thesis
        by (simp add: StoreStateTxFileOnly_def tx_destate_cases)
    next
      case False
      define de where "de = (case detect_state tx of Some de \<Rightarrow> de | None \<Rightarrow> (empty_dir, empty_dir))"
      have td: "tx_destate heap t tx = Inr (Some de)"
        using False so by (auto simp: tx_destate_cases de_def split: option.splits)
      have st: "idx2 de ?i = tx_store tx ?i"
        by (simp add: de_def tx_store_def split: option.splits)
      obtain d' de2 where hf: "StoreStateTxHandleFiles de_ctx d de flags t fnm = (d', de2)"
        by (cases "StoreStateTxHandleFiles de_ctx d de flags t fnm")
      from HandleFiles_store [OF hf]
      have h: "head (idx2 de2 ?i) = head (tx_store tx ?i)" and c: "cnt (idx2 de2 ?i) = cnt (tx_store tx ?i)"
        and al: "alerts d' = alerts d"
        by (simp_all add: st)
      have res: "StoreStateTxFileOnly de_ctx heap d f flags t tx fnm
          = Inr (d', set_tx f t (tx\<lparr>detect_state := Some de2\<rparr>))"
        using sup td hf by (simp add: StoreStateTxFileOnly_def)
      from set_tx_result [OF ft h c w refl] al show ?thesis
        unfolding res by simp
    qed
  qed
qed

lemma start_engines_fnm:
  "start_engines s flags al tx t es ifl m fnm =
     (case start_engines s flags al tx t es ifl m 0 of (e, i, m', k) \<Rightarrow> (e, i, m', fnm + k))"
proof (induction es arbitrary: ifl m)
  case Nil
  then show ?case by simp
next
  case (Cons e es)
  show ?case
    by (simp add: Let_def Cons.IH [of "ifl OR engine_inspect_flags e" "m + 1"] Cons.IH [of ifl m])
qed

lemma start_engines_exhausted:
  "fst (start_engines s flags al tx t es ifl m fnm) = [] \<longleftrightarrow>
     (\<forall>e \<in> set es. sm_list_set s (engine_sm_list e) \<longrightarrow>
        engine_Callback e s flags al tx t = DETECT_ENGINE_INSPECT_SIG_MATCH)"
  by (induction es arbitrary: ifl m) (simp_all add: Let_def)

lemma start_engines_matches:
  "fst (start_engines s flags al tx t es ifl m fnm) = [] \<Longrightarrow>
     fst (snd (snd (start_engines s flags al tx t es ifl m fnm)))
       = m + int (length (filter (\<lambda>e. sm_list_set s (engine_sm_list e)) es))"
proof (induction es arbitrary: ifl m)
  case Nil
  then show ?case by simp
next
  case (Cons e es)
  show ?case
  proof (cases "sm_list_set s (engine_sm_list e)")
    case False
    with Cons.prems Cons.IH [of ifl m] show ?thesis by simp
  next
    case True
    show ?thesis
    proof (cases "engine_Callback e s flags al tx t = DETECT_ENGINE_INSPECT_SIG_MATCH")
      case m: True
      with True Cons.prems Cons.IH [of "ifl OR engine_inspect_flags e" "m + 1"] show ?thesis
        by (simp add: Let_def)
    next
      case False
      with True Cons.prems show ?thesis by (simp add: Let_def split: if_splits)
    qed
  qed
qed

lemma start_engines_all_match:
  "(fst (start_engines s flags al tx t es 0 0 fnm) = [] \<and>
    fst (snd (snd (start_engines s flags al tx t es 0 0 fnm))) > 0)
   = engines_all_match s flags al tx t es"
proof (cases "fst (start_engines s flags al tx t es 0 0 fnm) = []")
  case False
  then show ?thesis
    using start_engines_exhausted [of s flags al tx t es 0 0 fnm]
    by (auto simp: engines_all_match_def)
next
  case True
  have "(length (filter (\<lambda>e. sm_list_set s (engine_sm_list e)) es) > 0)
          = (\<exists>e \<in> set es. sm_list_set s (engine_sm_list e))"
    by (simp add: length_greater_0_conv filter_empty_conv del: neq0_conv)
  with True start_engines_matches [OF True] show ?thesis
    using start_engines_exhausted [of s flags al tx t es 0 0 fnm]
    by (simp add: engines_all_match_def)
qed

lemma start_inspect_flags_any:
  "fst (snd (start_engines s flags (al_data al) (tx_data tx) t
               (app_inspection_engine de_ctx alproto (dir_index flags)) 0 0 fnm))
     = start_inspect_flags de_ctx s flags alproto al tx t"
  unfolding start_inspect_flags_def
  by (subst start_engines_fnm) (simp add: split_beta)

lemma alerts_alert_or_apply:
  "alerts (alert_or_apply d s t fl) =
     alerts d @ (if sig_flags s AND SIG_FLAG_NOALERT = 0
                 then [\<lparr>pa_num = num s, pa_tx_id = t, pa_flags = fl\<rparr>] else [])"
  by (simp add: alert_or_apply_def PacketAlertAppend_def DetectSignatureApplyActions_def)

lemma start_tx_unfold:
  assumes al: "f_alstate f = Some al" and tx: "AppLayerParserGetTx al t = Some tx"
    and se: "start_engines s flags (al_data al) (tx_data tx) t
               (app_inspection_engine de_ctx alproto (dir_index flags)) 0 0 fnm = (engine, i1, tm, fnm1)"
    and m: "M = (engine = [] \<and> tm > 0)"
  shows "start_tx de_ctx heap s flags alproto alversion total_txs t (d, f, if0, fnm, ac) =
     (if M \<or> i1 AND DE_STATE_FLAG_SIG_CANT_MATCH \<noteq> 0 then
        (if \<not> TxIsLast t total_txs \<or>
            tx_progress tx flags < GetStateProgressCompletionStatus f alproto flags then
           (case StoreStateTx de_ctx heap
                   (if M then alert_or_apply d s t (PACKET_ALERT_FLAG_STATE_MATCH OR PACKET_ALERT_FLAG_TX) else d)
                   f flags alversion t tx s (i1 OR DE_STATE_FLAG_FULL_INSPECT) fnm1 of
              Inl e \<Rightarrow> Inl e
            | Inr (d2, f2) \<Rightarrow> Inr (d2, f2, i1 OR DE_STATE_FLAG_FULL_INSPECT, fnm1, if M then 1 else ac))
         else
           (case StoreStateTxFileOnly de_ctx heap
                   (if M then alert_or_apply d s t (PACKET_ALERT_FLAG_STATE_MATCH OR PACKET_ALERT_FLAG_TX) else d)
                   f flags t tx fnm1 of
              Inl e \<Rightarrow> Inl e
            | Inr (d2, f2) \<Rightarrow> Inr (d2, f2, i1, fnm1, if M then 1 else ac)))
      else Inr (if M then alert_or_apply d s t (PACKET_ALERT_FLAG_STATE_MATCH OR PACKET_ALERT_FLAG_TX) else d,
                f, i1, fnm1, if M then 1 else ac))"
proof (cases "engine = []")
  case True
  show ?thesis
    unfolding start_tx_def m using al tx se True by (simp add: Let_def not_le)
next
  case False
  show ?thesis
    unfolding start_tx_def m using al tx se False by (simp add: Let_def not_le)
qed

lemma start_tx_records:
  assumes al: "f_alstate f = Some al" and tx: "AppLayerParserGetTx al t = Some tx"
    and w: "store_wf (tx_store tx (dir_index flags))"
    and so: "set_tx_state_ok heap t"
    and room: "store_room (tx_store tx (dir_index flags))"
  shows "\<exists>d' f' if' fnm' ac'.
           start_tx de_ctx heap s flags alproto alversion total_txs t (d, f, if0, fnm, ac)
             = Inr (d', f', if', fnm', ac') \<and>
           parser_view f' = parser_view f \<and> f_de_state f' = f_de_state f \<and>
           (\<forall>t'. t' \<noteq> t \<longrightarrow> flow_tx f' t' = flow_tx f t') \<and>
           alerts d' = alerts d @
             (if engines_all_match s flags (al_data al) (tx_data tx) t
                   (app_inspection_engine de_ctx alproto (dir_index flags)) \<and>
                 sig_flags s AND SIG_FLAG_NOALERT = 0
              then [\<lparr>pa_num = num s, pa_tx_id = t,
                     pa_flags = PACKET_ALERT_FLAG_STATE_MATCH OR PACKET_ALERT_FLAG_TX\<rparr>] else []) \<and>
           (\<exists>tx'. flow_tx f' t = Some tx' \<and> store_wf (tx_store tx' (dir_index flags)) \<and>
              DirStateIter (tx_store tx' (dir_index flags))
                = DirStateIter (tx_store tx (dir_index flags))
                  @ (if (engines_all_match s flags (al_data al) (tx_data tx) t
                           (app_inspection_engine de_ctx alproto (dir_index flags)) \<or>
                         start_inspect_flags de_ctx s flags alproto al tx t
                           AND DE_STATE_FLAG_SIG_CANT_MATCH \<noteq> 0) \<and>
                        (\<not> TxIsLast t total_txs \<or>
                         tx_progress tx flags < GetStateProgressCompletionStatus f alproto flags) \<and>
                        can_store heap f t tx (dir_index flags)
                     then [\<lparr>item_sid = num s,
                            item_flags = start_inspect_flags de_ctx s flags alproto al tx t
                                           OR DE_STATE_FLAG_FULL_INSPECT\<rparr>]
                     else []))"
proof -
  let ?i = "dir_index flags"
  let ?es = "app_inspection_engine de_ctx alproto ?i"
  let ?if1 = "start_inspect_flags de_ctx s flags alproto al tx t"
  let ?am = "engines_all_match s flags (al_data al) (tx_data tx) t ?es"
  have ft: "flow_tx f t = Some tx" using al tx by (simp add: flow_tx_def)
  obtain engine i1 tm fnm1 where se:
    "start_engines s flags (al_data al) (tx_data tx) t ?es 0 0 fnm = (engine, i1, tm, fnm1)"
    using prod_cases4 by blast
  have i1: "i1 = ?if1" using start_inspect_flags_any [of s flags al tx t de_ctx alproto fnm] se by simp
  have am: "(engine = [] \<and> tm > 0) = ?am"
    using start_engines_all_match [of s flags "al_data al" "tx_data tx" t ?es fnm] se by simp
  let ?d1 = "if ?am then alert_or_apply d s t (PACKET_ALERT_FLAG_STATE_MATCH OR PACKET_ALERT_FLAG_TX) else d"
  have ad1: "alerts ?d1 = alerts d @
             (if ?am \<and> sig_flags s AND SIG_FLAG_NOALERT = 0
              then [\<lparr>pa_num = num s, pa_tx_id = t,
                     pa_flags = PACKET_ALERT_FLAG_STATE_MATCH OR PACKET_ALERT_FLAG_TX\<rparr>] else [])"
    by (simp add: alerts_alert_or_apply)
  have same: "\<exists>tx'. flow_tx f t = Some tx' \<and> store_wf (tx_store tx' ?i) \<and>
      DirStateIter (tx_store tx' ?i) = DirStateIter (tx_store tx ?i) @ []"
    using ft w by simp
  show ?thesis
  proof (cases "?am \<or> ?if1 AND DE_STATE_FLAG_SIG_CANT_MATCH \<noteq> 0")
    case False
    then have "start_tx de_ctx heap s flags alproto alversion total_txs t (d, f, if0, fnm, ac)
        = Inr (?d1, f, ?if1, fnm1, if ?am then 1 else ac)"
      unfolding start_tx_unfold [OF al tx se am [symmetric]] i1 by simp
    with False same ad1 show ?thesis by simp
  next
    case dec: True
    then have full: "engine = [] \<or> ?if1 AND DE_STATE_FLAG_SIG_CANT_MATCH \<noteq> 0"
      using am by blast
    show ?thesis
    proof (cases "\<not> TxIsLast t total_txs \<or>
                  tx_progress tx flags < GetStateProgressCompletionStatus f alproto flags")
      case True
      from StoreStateTx_records [OF ft w so room, of de_ctx ?d1 alversion s
          "?if1 OR DE_STATE_FLAG_FULL_INSPECT" fnm1]
      obtain d' f' where r: "StoreStateTx de_ctx heap ?d1 f flags alversion t tx s
            (?if1 OR DE_STATE_FLAG_FULL_INSPECT) fnm1 = Inr (d', f')"
        and p: "parser_view f' = parser_view f" "f_de_state f' = f_de_state f" and a: "alerts d' = alerts ?d1"
        and fr: "\<forall>t'. t' \<noteq> t \<longrightarrow> flow_tx f' t' = flow_tx f t'"
        and rec: "\<exists>tx'. flow_tx f' t = Some tx' \<and> store_wf (tx_store tx' ?i) \<and>
              DirStateIter (tx_store tx' ?i) = DirStateIter (tx_store tx ?i)
                  @ (if can_store heap f t tx ?i
                     then [\<lparr>item_sid = num s, item_flags = ?if1 OR DE_STATE_FLAG_FULL_INSPECT\<rparr>] else [])"
        by blast
      have "start_tx de_ctx heap s flags alproto alversion total_txs t (d, f, if0, fnm, ac)
        = Inr (d', f', ?if1 OR DE_STATE_FLAG_FULL_INSPECT, fnm1, if ?am then 1 else ac)"
        unfolding start_tx_unfold [OF al tx se am [symmetric]] i1 using dec True r by simp
      with p a ad1 fr rec dec True show ?thesis by simp
    next
      case False
      from StoreStateTxFileOnly_records [OF ft w so, of de_ctx ?d1 fnm1]
      obtain d' f' where r: "StoreStateTxFileOnly de_ctx heap ?d1 f flags t tx fnm1 = Inr (d', f')"
        and p: "parser_view f' = parser_view f" "f_de_state f' = f_de_state f" and a: "alerts d' = alerts ?d1"
        and fr: "\<forall>t'. t' \<noteq> t \<longrightarrow> flow_tx f' t' = flow_tx f t'"
        and rec: "\<exists>tx'. flow_tx f' t = Some tx' \<and> store_wf (tx_store tx' ?i) \<and>
              DirStateIter (tx_store tx' ?i) = DirStateIter (tx_store tx ?i)"
        by blast
      have "start_tx de_ctx heap s flags alproto alversion total_txs t (d, f, if0, fnm, ac)
        = Inr (d', f', ?if1, fnm1, if ?am then 1 else ac)"
        unfolding start_tx_unfold [OF al tx se am [symmetric]] i1 using dec False r by simp
      with p a ad1 fr rec False show ?thesis by simp
    qed
  qed
qed

lemma start_tx_persisted:
  assumes al: "f_alstate f = Some al" and tx: "AppLayerParserGetTx al t = Some tx"
    and w: "store_wf (tx_store tx (dir_index flags))"
    and so: "set_tx_state_ok heap t"
    and room: "store_room (tx_store tx (dir_index flags))"
  shows "\<exists>d' f' if' fnm' ac'.
           start_tx de_ctx heap s flags alproto alversion (length (txs al)) t (d, f, if0, fnm, ac)
             = Inr (d', f', if', fnm', ac') \<and>
           parser_view f' = parser_view f \<and> f_de_state f' = f_de_state f \<and>
           (\<forall>t'. t' \<noteq> t \<longrightarrow> flow_tx f' t' = flow_tx f t') \<and>
           (\<exists>tx'. flow_tx f' t = Some tx' \<and> store_wf (tx_store tx' (dir_index flags)) \<and>
              DirStateIter (tx_store tx' (dir_index flags))
                = DirStateIter (tx_store tx (dir_index flags))
                  @ persisted_record de_ctx heap s flags alproto f al tx t)"
  using start_tx_records [OF al tx w so room, of de_ctx s alproto alversion "length (txs al)" d if0 fnm ac]
  unfolding persisted_record_def persist_decision_def
  by (elim exE conjE) (intro exI conjI, assumption+, simp)

lemma parser_view_fields:
  assumes "parser_view f1 = parser_view f"
  shows "GetStateProgressCompletionStatus f1 = GetStateProgressCompletionStatus f"
    and "SupportsTxDetectState f1 = SupportsTxDetectState f"
    and "ProtocolSupportsTxs f1 = ProtocolSupportsTxs f"
    and "f_alproto f1 = f_alproto f"
    and "inspect_id f1 = inspect_id f"
proof -
  show "GetStateProgressCompletionStatus f1 = GetStateProgressCompletionStatus f"
    using arg_cong [OF assms, of GetStateProgressCompletionStatus] by (simp add: parser_view_def)
  show "SupportsTxDetectState f1 = SupportsTxDetectState f"
    using arg_cong [OF assms, of SupportsTxDetectState] by (simp add: parser_view_def)
  show "ProtocolSupportsTxs f1 = ProtocolSupportsTxs f"
    using arg_cong [OF assms, of ProtocolSupportsTxs] by (simp add: parser_view_def)
  show "f_alproto f1 = f_alproto f"
    using arg_cong [OF assms, of f_alproto] by (simp add: parser_view_def)
  show "inspect_id f1 = inspect_id f"
    using arg_cong [OF assms, of inspect_id] by (simp add: parser_view_def)
qed

lemma parser_view_alstate:
  assumes v: "parser_view f1 = parser_view f" and al: "f_alstate f = Some al"
  shows "\<exists>al1. f_alstate f1 = Some al1 \<and> al_data al1 = al_data al \<and>
           length (txs al1) = length (txs al) \<and> conn al1 = conn al \<and>
           dcerpc_present al1 = dcerpc_present al"
proof -
  let ?g = "\<lambda>alstate. alstate\<lparr>txs := map (map_option (\<lambda>tx. tx\<lparr>detect_state := None\<rparr>)) (txs alstate)\<rparr>"
  from arg_cong [OF v, of f_alstate] al
  have e: "map_option ?g (f_alstate f1) = Some (?g al)" by (simp add: parser_view_def)
  then obtain al1 where a1: "f_alstate f1 = Some al1" and g: "?g al1 = ?g al" by auto
  from arg_cong [OF g, of al_data] have "al_data al1 = al_data al" by simp
  moreover from arg_cong [OF g, of conn] have "conn al1 = conn al" by simp
  moreover from arg_cong [OF g, of dcerpc_present] have "dcerpc_present al1 = dcerpc_present al" by simp
  moreover from arg_cong [OF g, of "\<lambda>a. length (txs a)"] have "length (txs al1) = length (txs al)" by simp
  ultimately show ?thesis using a1 by blast
qed

lemma persisted_record_view:
  assumes v: "parser_view f1 = parser_view f"
    and al: "f_alstate f = Some al" and al1: "f_alstate f1 = Some al1"
  shows "persisted_record de_ctx heap s flags alproto f1 al1 tx t
           = persisted_record de_ctx heap s flags alproto f al tx t"
proof -
  from parser_view_alstate [OF v al] al1
  have d: "al_data al1 = al_data al" and l: "length (txs al1) = length (txs al)" by auto
  show ?thesis
    unfolding persisted_record_def persist_decision_def can_store_def start_inspect_flags_def
      parser_view_fields [OF v] d l ..
qed

lemma start_tx_absent:
  "f_alstate f = Some al \<Longrightarrow> AppLayerParserGetTx al t = None \<Longrightarrow>
     start_tx de_ctx heap s flags alproto alversion total_txs t (d, f, if0, fnm, ac)
       = Inr (d, f, if0, fnm, ac)"
  by (simp add: start_tx_def)

lemma start_txs_persisted:
  assumes "distinct ids" and "f_alstate f = Some al"
    and "\<forall>t tx. flow_tx f t = Some tx \<longrightarrow> store_wf (tx_store tx (dir_index flags))"
    and "\<forall>t \<in> set ids. \<forall>tx. flow_tx f t = Some tx \<longrightarrow> store_room (tx_store tx (dir_index flags))"
    and so: "\<forall>t. set_tx_state_ok heap t"
  shows "\<exists>d' f' if' fnm' ac'.
           start_txs de_ctx heap s flags alproto alversion (length (txs al)) ids (d, f, if0, fnm, ac)
             = Inr (d', f', if', fnm', ac') \<and>
           parser_view f' = parser_view f \<and> f_de_state f' = f_de_state f \<and>
           (\<forall>t tx. flow_tx f' t = Some tx \<longrightarrow> store_wf (tx_store tx (dir_index flags))) \<and>
           (\<forall>t. t \<notin> set ids \<longrightarrow> flow_tx f' t = flow_tx f t) \<and>
           (\<forall>t \<in> set ids. \<forall>tx. flow_tx f t = Some tx \<longrightarrow>
              (\<exists>tx'. flow_tx f' t = Some tx' \<and>
                 DirStateIter (tx_store tx' (dir_index flags))
                   = DirStateIter (tx_store tx (dir_index flags))
                     @ persisted_record de_ctx heap s flags alproto f al tx t))"
  using assms(1-4)
proof (induction ids arbitrary: d f al if0 fnm ac)
  case Nil
  then show ?case by simp
next
  case (Cons t ids)
  let ?i = "dir_index flags"
  from Cons.prems(1) have dis: "distinct ids" and nin: "t \<notin> set ids" by simp_all
  note al = Cons.prems(2) and wf = Cons.prems(3)
  from Cons.prems(4)
  have room: "\<forall>t' \<in> set ids. \<forall>tx. flow_tx f t' = Some tx \<longrightarrow> store_room (tx_store tx ?i)"
    and roomt: "\<forall>tx. flow_tx f t = Some tx \<longrightarrow> store_room (tx_store tx ?i)"
    by simp_all
  show ?case
  proof (cases "AppLayerParserGetTx al t")
    case None
    then have ft: "flow_tx f t = None" using al by (simp add: flow_tx_def)
    from Cons.IH [OF dis al wf room, of d if0 fnm ac]
    obtain d' f' if' fnm' ac' where
      r: "start_txs de_ctx heap s flags alproto alversion (length (txs al)) ids (d, f, if0, fnm, ac)
             = Inr (d', f', if', fnm', ac')"
      and v: "parser_view f' = parser_view f" "f_de_state f' = f_de_state f"
      and w': "\<forall>t tx. flow_tx f' t = Some tx \<longrightarrow> store_wf (tx_store tx ?i)"
      and fr: "\<forall>t. t \<notin> set ids \<longrightarrow> flow_tx f' t = flow_tx f t"
      and rec: "\<forall>t \<in> set ids. \<forall>tx. flow_tx f t = Some tx \<longrightarrow>
              (\<exists>tx'. flow_tx f' t = Some tx' \<and>
                 DirStateIter (tx_store tx' ?i) = DirStateIter (tx_store tx ?i)
                     @ persisted_record de_ctx heap s flags alproto f al tx t)"
      by blast
    have "start_txs de_ctx heap s flags alproto alversion (length (txs al)) (t # ids) (d, f, if0, fnm, ac)
             = Inr (d', f', if', fnm', ac')"
      using r start_tx_absent [OF al None] by simp
    moreover have "\<forall>t' \<in> set (t # ids). \<forall>tx. flow_tx f t' = Some tx \<longrightarrow>
              (\<exists>tx'. flow_tx f' t' = Some tx' \<and>
                 DirStateIter (tx_store tx' ?i) = DirStateIter (tx_store tx ?i)
                     @ persisted_record de_ctx heap s flags alproto f al tx t')"
      using rec ft by simp
    moreover have "\<forall>t'. t' \<notin> set (t # ids) \<longrightarrow> flow_tx f' t' = flow_tx f t'"
      using fr by simp
    ultimately show ?thesis using v w' by blast
  next
    case (Some tx)
    then have ft: "flow_tx f t = Some tx" using al by (simp add: flow_tx_def)
    from wf ft have w: "store_wf (tx_store tx ?i)" by blast
    from so have sot: "set_tx_state_ok heap t" by blast
    from roomt ft have rt: "store_room (tx_store tx ?i)" by blast
    from start_tx_persisted [OF al Some w sot rt, of de_ctx s alproto alversion d if0 fnm ac]
    obtain d1 f1 if1 fnm1 ac1 tx1 where
      r1: "start_tx de_ctx heap s flags alproto alversion (length (txs al)) t (d, f, if0, fnm, ac)
             = Inr (d1, f1, if1, fnm1, ac1)"
      and v1: "parser_view f1 = parser_view f" "f_de_state f1 = f_de_state f"
      and fr1: "\<forall>t'. t' \<noteq> t \<longrightarrow> flow_tx f1 t' = flow_tx f t'"
      and t1: "flow_tx f1 t = Some tx1" "store_wf (tx_store tx1 ?i)"
        "DirStateIter (tx_store tx1 ?i) = DirStateIter (tx_store tx ?i)
           @ persisted_record de_ctx heap s flags alproto f al tx t"
      by blast
    from parser_view_alstate [OF v1(1) al] obtain al1 where
      al1: "f_alstate f1 = Some al1" and len: "length (txs al1) = length (txs al)" by blast
    have wf1: "\<forall>t' tx'. flow_tx f1 t' = Some tx' \<longrightarrow> store_wf (tx_store tx' ?i)"
    proof (intro allI impI)
      fix t' tx' assume a: "flow_tx f1 t' = Some tx'"
      show "store_wf (tx_store tx' ?i)"
      proof (cases "t' = t")
        case True with a t1 show ?thesis by simp
      next
        case False with a fr1 wf show ?thesis by simp
      qed
    qed
    have room1: "\<forall>t' \<in> set ids. \<forall>tx'. flow_tx f1 t' = Some tx' \<longrightarrow> store_room (tx_store tx' ?i)"
    proof (intro ballI allI impI)
      fix t' tx' assume m: "t' \<in> set ids" and a: "flow_tx f1 t' = Some tx'"
      from m nin have "t' \<noteq> t" by blast
      with fr1 a have "flow_tx f t' = Some tx'" by simp
      with room m show "store_room (tx_store tx' ?i)" by blast
    qed
    from Cons.IH [OF dis al1 wf1 room1, of d1 if1 fnm1 ac1]
    obtain d' f' if' fnm' ac' where
      r: "start_txs de_ctx heap s flags alproto alversion (length (txs al1)) ids (d1, f1, if1, fnm1, ac1)
             = Inr (d', f', if', fnm', ac')"
      and v: "parser_view f' = parser_view f1" "f_de_state f' = f_de_state f1"
      and w': "\<forall>t tx. flow_tx f' t = Some tx \<longrightarrow> store_wf (tx_store tx ?i)"
      and fr: "\<forall>t. t \<notin> set ids \<longrightarrow> flow_tx f' t = flow_tx f1 t"
      and rec: "\<forall>t \<in> set ids. \<forall>tx. flow_tx f1 t = Some tx \<longrightarrow>
              (\<exists>tx'. flow_tx f' t = Some tx' \<and>
                 DirStateIter (tx_store tx' ?i) = DirStateIter (tx_store tx ?i)
                     @ persisted_record de_ctx heap s flags alproto f1 al1 tx t)"
      by blast
    have run: "start_txs de_ctx heap s flags alproto alversion (length (txs al)) (t # ids) (d, f, if0, fnm, ac)
             = Inr (d', f', if', fnm', ac')"
      using r r1 len by simp
    have a: "\<exists>tx'. flow_tx f' t' = Some tx' \<and>
                 DirStateIter (tx_store tx' ?i) = DirStateIter (tx_store tx0 ?i)
                     @ persisted_record de_ctx heap s flags alproto f al tx0 t'"
      if m: "t' \<in> set (t # ids)" and f0: "flow_tx f t' = Some tx0" for t' tx0
    proof (cases "t' = t")
      case True
      with fr nin have "flow_tx f' t' = flow_tx f1 t" by simp
      with True t1 f0 ft show ?thesis by simp
    next
      case False
      with m have mi: "t' \<in> set ids" by simp
      from False fr1 f0 have "flow_tx f1 t' = Some tx0" by simp
      with rec mi obtain tx' where "flow_tx f' t' = Some tx'"
        "DirStateIter (tx_store tx' ?i) = DirStateIter (tx_store tx0 ?i)
           @ persisted_record de_ctx heap s flags alproto f1 al1 tx0 t'" by blast
      then show ?thesis using persisted_record_view [OF v1(1) al al1] by auto
    qed
    have b: "flow_tx f' t' = flow_tx f t'" if "t' \<notin> set (t # ids)" for t'
      using that fr fr1 by simp
    from run v v1 w' a b show ?thesis by (intro exI conjI) auto
  qed
qed

lemma tx_records_Some:
  "flow_tx f t = Some tx \<Longrightarrow> tx_records f t i = DirStateIter (tx_store tx i)"
  by (simp add: tx_records_def tx_store_def DirStateIter_empty split: option.splits)

lemma alloc_wf_FlowRulesAlloc: "alloc_wf (DeStateStoreFlowRulesAlloc ok)"
  by (simp add: alloc_wf_def DeStateStoreFlowRulesAlloc_def)

lemma StoreState_ok:
  fixes f :: "'w::len Flow"
  assumes "\<forall>de. f_de_state f = Some de \<longrightarrow> store_wf (idx2 de (dir_index flags))"
  shows "\<exists>r f1. StoreState heap f flags alversion s sm ifl = Inr (r, f1) \<and> f_alstate f1 = f_alstate f"
proof -
  let ?i = "dir_index flags"
  have ap: "\<exists>de'. DeStateFlowRuleAppend de s sm ifl flags ok = Inr de'"
    if "store_wf (idx2 de ?i)" for de :: "'w DetectEngineStateFlow" and ok
    unfolding DeStateFlowRuleAppend_def
      store_append_cases [OF store_wf_inv [OF that],
        of "\<lparr>rule_sid = num s, rule_flags = ifl, rule_nm = sm\<rparr>" "DeStateStoreFlowRulesAlloc ok"]
    by simp
  show ?thesis
  proof (cases "f_de_state f")
    case (Some de)
    with assms have "store_wf (idx2 de ?i)" by blast
    from ap [OF this, of "flow_chunk_alloc_ok heap"] Some show ?thesis
      by (auto simp: StoreState_def DeStateStoreStateVersion_def)
  next
    case None
    show ?thesis
    proof (cases "flow_state_alloc_ok heap")
      case False
      with None show ?thesis by (simp add: StoreState_def DetectEngineStateFlowAlloc_def)
    next
      case True
      have "store_wf (idx2 (empty_dir, empty_dir :: 'w DetectEngineStateDirectionFlow) ?i)"
        by (simp add: store_wf_empty)
      from ap [OF this, of "flow_chunk_alloc_ok heap"] None True show ?thesis
        by (auto simp: StoreState_def DetectEngineStateFlowAlloc_def DeStateStoreStateVersion_def)
    qed
  qed
qed

lemma start_flow_part_ok:
  assumes "\<forall>de. f_de_state f = Some de \<longrightarrow> store_wf (idx2 de (dir_index flags))"
  shows "\<exists>d' f' if' fnm' ac'.
           start_flow_part de_ctx heap s flags alproto alversion (d, f, ifl, fnm, ac)
             = Inr (d', f', if', fnm', ac') \<and> f_alstate f' = f_alstate f"
proof (cases "sm_amatch s \<noteq> [] \<and> f_alstate f \<noteq> None")
  case False
  then show ?thesis by (auto simp: start_flow_part_def)
next
  case True
  then obtain al where al: "f_alstate f = Some al" by auto
  obtain sm match if1 where sa:
    "start_amatch de_ctx flags alproto al s (sm_amatch s) 0 ifl = (sm, match, if1)"
    using prod_cases3 by blast
  let ?if2 = "if sm = [] \<or> if1 AND DE_STATE_FLAG_SIG_CANT_MATCH \<noteq> 0
              then if1 OR DE_STATE_FLAG_FULL_INSPECT else if1"
  from StoreState_ok [OF assms, of heap alversion s sm ?if2]
  obtain r f1 where "StoreState heap f flags alversion s sm ?if2 = Inr (r, f1)"
    "f_alstate f1 = f_alstate f" by blast
  with True al sa show ?thesis
    by (simp add: start_flow_part_def Let_def)
qed

lemma flow_tx_alstate: "f_alstate f' = f_alstate f \<Longrightarrow> flow_tx f' t = flow_tx f t"
  by (simp add: flow_tx_def)

lemma or_and_self: "(x OR b) AND b = (b :: 'a :: len word)"
  by (simp add: and.commute)

text \<open>
  Claim C1, as the code has it.  On a flow whose protocol has transactions and whose parser
  state is valid, one call of \<open>DeStateDetectStartDetection\<close> returns, and for every
  transaction from the inspect id up to the transaction count it appends exactly one record to
  the direction's store of that transaction if and only if
  (a) the engines were exhausted with at least one match or an engine reported that the
  signature can never match, and the transaction is not the last one or has not reached its
  completion progress (\<open>persist_decision\<close>), and
  (b) the record can be stored: the protocol supports a per-transaction detect state and the
  state the transaction needs could be allocated (\<open>can_store\<close>);
  otherwise the store of the transaction is unchanged.  The stores are taken well formed and
  their counters below the maximum of \<open>SigIntId\<close> (\<open>store_room\<close>), so that \<open>cnt++\<close> does
  not wrap.  The record carries the signature's number and the inspect flags of the
  engines, and its \<open>DE_STATE_FLAG_FULL_INSPECT\<close> bit is set.
\<close>

theorem start_persists_record:
  assumes sup: "ProtocolSupportsTxs f alproto" and valid: "StateIsValid alproto (f_alstate f)"
    and al: "f_alstate f = Some alstate"
    and so: "\<forall>t. set_tx_state_ok heap t"
    and wf: "\<forall>t tx. flow_tx f t = Some tx \<longrightarrow> store_wf (tx_store tx (dir_index flags))"
    and fwf: "\<forall>de. f_de_state f = Some de \<longrightarrow> store_wf (idx2 de (dir_index flags))"
    and room: "\<forall>t tx. flow_tx f t = Some tx \<longrightarrow> store_room (tx_store tx (dir_index flags))"
  shows "\<exists>r det_ctx' f'.
     DeStateDetectStartDetection de_ctx heap det_ctx s f flags alproto alversion = Inr (r, det_ctx', f') \<and>
     (\<forall>t \<in> set [inspect_id f flags ..< AppLayerParserGetTxCnt alstate]. \<forall>tx.
         AppLayerParserGetTx alstate t = Some tx \<longrightarrow>
           tx_records f' t (dir_index flags)
             = tx_records f t (dir_index flags)
               @ (if persist_decision de_ctx s flags alproto f alstate tx t \<and>
                     can_store heap f t tx (dir_index flags)
                  then [\<lparr>item_sid = num s,
                         item_flags = start_inspect_flags de_ctx s flags alproto alstate tx t
                                        OR DE_STATE_FLAG_FULL_INSPECT\<rparr>]
                  else []) \<and>
           (start_inspect_flags de_ctx s flags alproto alstate tx t OR DE_STATE_FLAG_FULL_INSPECT)
             AND DE_STATE_FLAG_FULL_INSPECT \<noteq> 0)"
proof -
  let ?i = "dir_index flags"
  let ?ids = "[inspect_id f flags ..< AppLayerParserGetTxCnt alstate]"
  have dis: "distinct ?ids" by simp
  from room have room': "\<forall>t \<in> set ?ids. \<forall>tx. flow_tx f t = Some tx \<longrightarrow> store_room (tx_store tx ?i)"
    by blast
  from start_txs_persisted [OF dis al wf room' so, of de_ctx s alproto alversion det_ctx 0 0 0]
  obtain d1 f1 if1 fnm1 ac1 where
    r1: "start_txs de_ctx heap s flags alproto alversion (length (txs alstate)) ?ids (det_ctx, f, 0, 0, 0)
             = Inr (d1, f1, if1, fnm1, ac1)"
    and v1: "f_de_state f1 = f_de_state f"
    and rec: "\<forall>t \<in> set ?ids. \<forall>tx. flow_tx f t = Some tx \<longrightarrow>
              (\<exists>tx'. flow_tx f1 t = Some tx' \<and>
                 DirStateIter (tx_store tx' ?i) = DirStateIter (tx_store tx ?i)
                     @ persisted_record de_ctx heap s flags alproto f alstate tx t)"
    by blast
  have p1: "start_tx_part de_ctx heap s flags alproto alversion (det_ctx, f, 0, 0, 0)
              = Inr (False, d1, f1, if1, fnm1, ac1)"
    using valid al r1 by (simp add: start_tx_part_def AppLayerParserGetTxCnt_def)
  from fwf v1 have fwf1: "\<forall>de. f_de_state f1 = Some de \<longrightarrow> store_wf (idx2 de ?i)" by simp
  from start_flow_part_ok [OF fwf1, of de_ctx heap s alproto alversion d1 if1 fnm1 ac1]
  obtain d2 f2 if2 fnm2 ac2 where
    r2: "start_flow_part de_ctx heap s flags alproto alversion (d1, f1, if1, fnm1, ac1)
             = Inr (d2, f2, if2, fnm2, ac2)"
    and a2: "f_alstate f2 = f_alstate f1" by blast
  have run: "DeStateDetectStartDetection de_ctx heap det_ctx s f flags alproto alversion
               = Inr (if ac2 \<noteq> 0 then 1 else 0, d2, f2)"
    using sup p1 r2 by (simp add: DeStateDetectStartDetection_def)
  have full: "(x OR DE_STATE_FLAG_FULL_INSPECT) AND DE_STATE_FLAG_FULL_INSPECT \<noteq> 0" for x
    unfolding or_and_self by (simp add: DE_STATE_FLAG_FULL_INSPECT_def)
  have "tx_records f2 t ?i = tx_records f t ?i
          @ persisted_record de_ctx heap s flags alproto f alstate tx t"
    if m: "t \<in> set ?ids" and g: "AppLayerParserGetTx alstate t = Some tx" for t tx
  proof -
    from g al have ft: "flow_tx f t = Some tx" by (simp add: flow_tx_def)
    with rec m obtain tx' where t': "flow_tx f1 t = Some tx'"
      "DirStateIter (tx_store tx' ?i) = DirStateIter (tx_store tx ?i)
         @ persisted_record de_ctx heap s flags alproto f alstate tx t" by blast
    from t'(1) flow_tx_alstate [OF a2] have "flow_tx f2 t = Some tx'" by simp
    from tx_records_Some [OF this] tx_records_Some [OF ft] t'(2) show ?thesis by simp
  qed
  with run full show ?thesis
    unfolding persisted_record_def by (intro exI conjI) (assumption, blast)
qed

text \<open>
  Claim C1 as stated fails: signature 1 matches transaction 0, which is still in progress, so
  the decision to persist holds; but no record is stored when the allocation of the
  transaction's detect state fails, nor when the protocol does not support a per-transaction
  detect state.
\<close>

theorem start_persists_record_counterexample:
  "persist_decision de_ctx0 (sig_uri 1 False) STREAM_TOSERVER ALPROTO_HTTP (one_tx_flow 1)
     \<lparr>conn = True, dcerpc_present = False, al_data = 0, txs = [Some (tx_of 1 0 None)]\<rparr>
     (tx_of 1 0 None) 0 \<and>
   start_records heap_no_state (one_tx_flow 1) = Some [] \<and>
   start_records heap_ok ((one_tx_flow 1)\<lparr>SupportsTxDetectState := (\<lambda>_. False)\<rparr>) = Some []"
  by code_simp

text \<open>
  The start driver on one transaction in progress on which the URI engine reports that the
  signature can never match: one record is stored, with the three flags.  On a transaction
  the engine does not match, nothing is stored.
\<close>

theorem start_persists_record_witness:
  "persist_decision de_ctx0 (sig_uri 1 False) STREAM_TOSERVER ALPROTO_HTTP (one_tx_flow 2)
     \<lparr>conn = True, dcerpc_present = False, al_data = 0, txs = [Some (tx_of 2 0 None)]\<rparr>
     (tx_of 2 0 None) 0 \<and>
   can_store heap_ok (one_tx_flow 2) 0 (tx_of 2 0 None) (dir_index STREAM_TOSERVER) \<and>
   (\<exists>r det_ctx' f'.
      DeStateDetectStartDetection de_ctx0 heap_ok det_ctx0 (sig_uri 1 False) (one_tx_flow 2)
        STREAM_TOSERVER ALPROTO_HTTP 1 = Inr (r, det_ctx', f') \<and>
      tx_records f' 0 (dir_index STREAM_TOSERVER)
        = [\<lparr>item_sid = 1,
            item_flags = DE_STATE_FLAG_SIG_CANT_MATCH OR DE_STATE_FLAG_URI_INSPECT
                           OR DE_STATE_FLAG_FULL_INSPECT\<rparr>]) \<and>
   start_records heap_ok (one_tx_flow 0) = Some []"
proof -
  let ?al = "\<lparr>conn = True, dcerpc_present = False, al_data = 0, txs = [Some (tx_of 2 0 None)]\<rparr>"
  let ?f = "one_tx_flow 2"
  let ?s = "sig_uri 1 False"
  have h1: "ProtocolSupportsTxs ?f ALPROTO_HTTP" by code_simp
  have h2: "StateIsValid ALPROTO_HTTP (f_alstate ?f)" by code_simp
  have h3: "f_alstate ?f = Some ?al" by (simp add: one_tx_flow_def http_flow_def)
  have h4: "\<forall>t. set_tx_state_ok heap_ok t" by (simp add: heap_ok_def)
  have h5: "\<forall>t tx. flow_tx ?f t = Some tx \<longrightarrow> store_wf (tx_store tx (dir_index STREAM_TOSERVER))"
    by (auto simp: flow_tx_def h3 AppLayerParserGetTx_def tx_of_def tx_store_def store_wf_empty
        split: if_splits)
  have h6: "\<forall>de. f_de_state ?f = Some de \<longrightarrow> store_wf (idx2 de (dir_index STREAM_TOSERVER))"
    by (simp add: one_tx_flow_def http_flow_def)
  have p: "persist_decision de_ctx0 ?s STREAM_TOSERVER ALPROTO_HTTP ?f ?al (tx_of 2 0 None) 0"
    by code_simp
  have c: "can_store heap_ok ?f 0 (tx_of 2 0 None) (dir_index STREAM_TOSERVER)" by code_simp
  have m: "0 \<in> set [inspect_id ?f STREAM_TOSERVER ..< AppLayerParserGetTxCnt ?al]" by code_simp
  have g: "AppLayerParserGetTx ?al 0 = Some (tx_of 2 0 None)" by code_simp
  have o: "tx_records ?f 0 (dir_index STREAM_TOSERVER) = []" by code_simp
  have fl: "start_inspect_flags de_ctx0 ?s STREAM_TOSERVER ALPROTO_HTTP ?al (tx_of 2 0 None) 0
              = DE_STATE_FLAG_SIG_CANT_MATCH OR DE_STATE_FLAG_URI_INSPECT" by code_simp
  have n: "start_records heap_ok (one_tx_flow 0) = Some []" by code_simp
  have h7: "\<forall>t tx. flow_tx ?f t = Some tx \<longrightarrow> store_room (tx_store tx (dir_index STREAM_TOSERVER))"
    by (auto simp: flow_tx_def h3 AppLayerParserGetTx_def tx_of_def tx_store_def store_room_empty
        split: if_splits)
  from start_persists_record [OF h1 h2 h3 h4 h5 h6 h7, of de_ctx0 det_ctx0 ?s 1]
  obtain r det_ctx' f' where
    run: "DeStateDetectStartDetection de_ctx0 heap_ok det_ctx0 ?s ?f STREAM_TOSERVER ALPROTO_HTTP 1
            = Inr (r, det_ctx', f')"
    and rec: "\<forall>t \<in> set [inspect_id ?f STREAM_TOSERVER ..< AppLayerParserGetTxCnt ?al]. \<forall>tx.
         AppLayerParserGetTx ?al t = Some tx \<longrightarrow>
           tx_records f' t (dir_index STREAM_TOSERVER)
             = tx_records ?f t (dir_index STREAM_TOSERVER)
               @ (if persist_decision de_ctx0 ?s STREAM_TOSERVER ALPROTO_HTTP ?f ?al tx t \<and>
                     can_store heap_ok ?f t tx (dir_index STREAM_TOSERVER)
                  then [\<lparr>item_sid = num ?s,
                         item_flags = start_inspect_flags de_ctx0 ?s STREAM_TOSERVER ALPROTO_HTTP ?al tx t
                                        OR DE_STATE_FLAG_FULL_INSPECT\<rparr>]
                  else []) \<and>
           (start_inspect_flags de_ctx0 ?s STREAM_TOSERVER ALPROTO_HTTP ?al tx t OR DE_STATE_FLAG_FULL_INSPECT)
             AND DE_STATE_FLAG_FULL_INSPECT \<noteq> 0"
    by blast
  from rec m g have "tx_records f' 0 (dir_index STREAM_TOSERVER)
             = tx_records ?f 0 (dir_index STREAM_TOSERVER)
               @ (if persist_decision de_ctx0 ?s STREAM_TOSERVER ALPROTO_HTTP ?f ?al (tx_of 2 0 None) 0 \<and>
                     can_store heap_ok ?f 0 (tx_of 2 0 None) (dir_index STREAM_TOSERVER)
                  then [\<lparr>item_sid = num ?s,
                         item_flags = start_inspect_flags de_ctx0 ?s STREAM_TOSERVER ALPROTO_HTTP ?al
                                        (tx_of 2 0 None) 0
                                        OR DE_STATE_FLAG_FULL_INSPECT\<rparr>]
                  else [])"
    by blast
  with p c o fl have "tx_records f' 0 (dir_index STREAM_TOSERVER)
        = [\<lparr>item_sid = 1,
            item_flags = DE_STATE_FLAG_SIG_CANT_MATCH OR DE_STATE_FLAG_URI_INSPECT
                           OR DE_STATE_FLAG_FULL_INSPECT\<rparr>]"
    by (simp add: sig_uri_def or.assoc)
  with run p c n show ?thesis by blast
qed

subsection \<open>The slot an operation works on\<close>


lemma slot_view_set_tx:
  "flow_tx f tid = Some tx0 \<Longrightarrow> tx_store tx j = tx_store tx0 j \<Longrightarrow>
     slot_view (set_tx f tid tx) j t = slot_view f j t"
  by (simp add: slot_view_def flow_tx_set_tx flow_store_def f_de_state_set_tx)
     (simp add: set_tx_def split: option.splits)

lemma slot_view_version:
  "slot_view (DeStateStoreStateVersion f v d) (Suc 0 - dir_index d) t = slot_view f (Suc 0 - dir_index d) t"
  by (simp add: slot_view_def flow_store_def dir_index_le)
     (simp add: DeStateStoreStateVersion_def dir_index_le)

lemma HandleFiles_other:
  "StoreStateTxHandleFiles de_ctx d destate flags tid n = (d', destate') \<Longrightarrow>
     idx2 destate' (Suc 0 - dir_index flags) = idx2 destate (Suc 0 - dir_index flags)"
  by (auto simp: StoreStateTxHandleFiles_def Let_def DeStateStoreFileNoMatchCnt_def dir_index_le
      split: if_splits)

lemma SignatureAppend_other:
  "DeStateSignatureAppend destate s fl flags ok = Inr destate1 \<Longrightarrow>
     idx2 destate1 (Suc 0 - dir_index flags) = idx2 destate (Suc 0 - dir_index flags)"
  by (auto simp: DeStateSignatureAppend_def dir_index_le split: sum.splits)

lemma FlowRuleAppend_other:
  "DeStateFlowRuleAppend destate s sm fl flags ok = Inr destate1 \<Longrightarrow>
     idx2 destate1 (Suc 0 - dir_index flags) = idx2 destate (Suc 0 - dir_index flags)"
  by (auto simp: DeStateFlowRuleAppend_def dir_index_le split: sum.splits)

lemma tx_destate_store:
  "tx_destate heap tid tx = Inr (Some destate) \<Longrightarrow> idx2 destate j = tx_store tx j"
  by (auto simp: tx_destate_def tx_store_def DetectEngineStateAlloc_def idx2_def
      split: option.splits if_splits)

lemma StoreStateTx_other:
  assumes ft: "flow_tx f tid = Some tx"
    and r: "StoreStateTx de_ctx heap d f flags alversion tid tx s fl n = Inr (d', f')"
  shows "slot_view f' (Suc 0 - dir_index flags) t = slot_view f (Suc 0 - dir_index flags) t"
proof (cases "SupportsTxDetectState f (f_alproto f)")
  case False
  with r show ?thesis by (simp add: StoreStateTx_def)
next
  case True
  show ?thesis
  proof (cases "tx_destate heap tid tx")
    case (Inl e)
    with r True show ?thesis by (simp add: StoreStateTx_def)
  next
    case (Inr o1)
    show ?thesis
    proof (cases o1)
      case None
      with r True Inr show ?thesis by (simp add: StoreStateTx_def)
    next
      case (Some destate)
      with Inr have td: "tx_destate heap tid tx = Inr (Some destate)" by simp
      from r True td obtain destate1 where
        a: "DeStateSignatureAppend destate s fl flags (tx_chunk_alloc_ok heap tid) = Inr destate1"
        by (auto simp: StoreStateTx_def split: sum.splits)
      obtain d2 destate2 where
        h: "StoreStateTxHandleFiles de_ctx d destate1 flags tid n = (d2, destate2)"
        by (cases "StoreStateTxHandleFiles de_ctx d destate1 flags tid n")
      from r True td a h have f': "f' = set_tx (DeStateStoreStateVersion f alversion flags) tid
                                          (tx\<lparr>detect_state := Some destate2\<rparr>)"
        by (simp add: StoreStateTx_def)
      have ft': "flow_tx (DeStateStoreStateVersion f alversion flags) tid = Some tx"
        using ft by simp
      have "tx_store (tx\<lparr>detect_state := Some destate2\<rparr>) (Suc 0 - dir_index flags)
              = tx_store tx (Suc 0 - dir_index flags)"
        using HandleFiles_other [OF h] SignatureAppend_other [OF a] tx_destate_store [OF td]
        by simp
      from slot_view_set_tx [OF ft' this] show ?thesis
        unfolding f' by (simp add: slot_view_version)
    qed
  qed
qed

lemma StoreStateTxFileOnly_other:
  assumes ft: "flow_tx f tid = Some tx"
    and r: "StoreStateTxFileOnly de_ctx heap d f flags tid tx n = Inr (d', f')"
  shows "slot_view f' (Suc 0 - dir_index flags) t = slot_view f (Suc 0 - dir_index flags) t"
proof (cases "SupportsTxDetectState f (f_alproto f)")
  case False
  with r show ?thesis by (simp add: StoreStateTxFileOnly_def)
next
  case True
  show ?thesis
  proof (cases "tx_destate heap tid tx")
    case (Inl e)
    with r True show ?thesis by (simp add: StoreStateTxFileOnly_def)
  next
    case (Inr o1)
    show ?thesis
    proof (cases o1)
      case None
      with r True Inr show ?thesis by (simp add: StoreStateTxFileOnly_def)
    next
      case (Some destate)
      with Inr have td: "tx_destate heap tid tx = Inr (Some destate)" by simp
      obtain d2 destate2 where
        h: "StoreStateTxHandleFiles de_ctx d destate flags tid n = (d2, destate2)"
        by (cases "StoreStateTxHandleFiles de_ctx d destate flags tid n")
      from r True td h have f': "f' = set_tx f tid (tx\<lparr>detect_state := Some destate2\<rparr>)"
        by (simp add: StoreStateTxFileOnly_def)
      have "tx_store (tx\<lparr>detect_state := Some destate2\<rparr>) (Suc 0 - dir_index flags)
              = tx_store tx (Suc 0 - dir_index flags)"
        using HandleFiles_other [OF h] tx_destate_store [OF td] by simp
      from slot_view_set_tx [OF ft this] show ?thesis unfolding f' .
    qed
  qed
qed

lemma start_tx_other:
  assumes r: "start_tx de_ctx heap s flags alproto alversion total_txs tid (d, f, i0, n, a)
                = Inr (d', f', i', n', a')"
  shows "slot_view f' (Suc 0 - dir_index flags) t = slot_view f (Suc 0 - dir_index flags) t"
proof (cases "flow_tx f tid")
  case None
  with r have "f' = f" by (auto simp: start_tx_def flow_tx_def split: option.splits)
  then show ?thesis by simp
next
  case (Some tx)
  then obtain alstate where al: "f_alstate f = Some alstate"
    and tx: "AppLayerParserGetTx alstate tid = Some tx"
    by (auto simp: flow_tx_def split: option.splits)
  obtain e i1 tm n1 where se: "start_engines s flags (al_data alstate) (tx_data tx) tid
      (app_inspection_engine de_ctx alproto (dir_index flags)) 0 0 n = (e, i1, tm, n1)"
    using prod_cases4 by blast
  from r al tx se consider
      (same) "f' = f"
    | (store) d1 fl where "StoreStateTx de_ctx heap d1 f flags alversion tid tx s fl n1 = Inr (d', f')"
    | (fileonly) d1 where "StoreStateTxFileOnly de_ctx heap d1 f flags tid tx n1 = Inr (d', f')"
    by (auto simp: start_tx_def Let_def split: if_splits sum.splits)
  then show ?thesis
  proof cases
    case same then show ?thesis by simp
  next
    case store from StoreStateTx_other [OF Some this] show ?thesis .
  next
    case fileonly from StoreStateTxFileOnly_other [OF Some this] show ?thesis .
  qed
qed

lemma start_txs_other:
  "start_txs de_ctx heap s flags alproto alversion total_txs ids (d, f, i0, n, a)
      = Inr (d', f', i', n', a') \<Longrightarrow>
   slot_view f' (Suc 0 - dir_index flags) t = slot_view f (Suc 0 - dir_index flags) t"
proof (induction ids arbitrary: d f i0 n a)
  case Nil
  then show ?case by simp
next
  case (Cons tid ids)
  from Cons.prems obtain d1 f1 i1 n1 a1 where
    s1: "start_tx de_ctx heap s flags alproto alversion total_txs tid (d, f, i0, n, a)
           = Inr (d1, f1, i1, n1, a1)"
    and s2: "start_txs de_ctx heap s flags alproto alversion total_txs ids (d1, f1, i1, n1, a1)
           = Inr (d', f', i', n', a')"
    by (auto split: sum.splits)
  from Cons.IH [OF s2] start_tx_other [OF s1] show ?case by simp
qed

lemma StoreState_other:
  assumes r: "StoreState heap f flags alversion s sm fl = Inr (x, f1)"
  shows "slot_view f1 (Suc 0 - dir_index flags) t = slot_view f (Suc 0 - dir_index flags) t"
proof (cases "f_de_state f")
  case None
  show ?thesis
  proof (cases "flow_state_alloc_ok heap")
    case False
    with r None show ?thesis by (simp add: StoreState_def DetectEngineStateFlowAlloc_def)
  next
    case True
    with r None obtain de1 where
      a: "DeStateFlowRuleAppend (empty_dir, empty_dir) s sm fl flags (flow_chunk_alloc_ok heap) = Inr de1"
      and f1: "f1 = DeStateStoreStateVersion (f\<lparr>f_de_state := Some de1\<rparr>) alversion flags"
      by (auto simp: StoreState_def DetectEngineStateFlowAlloc_def split: sum.splits)
    from FlowRuleAppend_other [OF a]
    have "idx2 de1 (Suc 0 - dir_index flags) = empty_dir" by (simp add: idx2_def)
    with None show ?thesis unfolding f1 slot_view_version
      by (simp add: slot_view_def flow_store_def flow_tx_def)
  qed
next
  case (Some de)
  with r obtain de1 where
    a: "DeStateFlowRuleAppend de s sm fl flags (flow_chunk_alloc_ok heap) = Inr de1"
    and f1: "f1 = DeStateStoreStateVersion (f\<lparr>f_de_state := Some de1\<rparr>) alversion flags"
    by (auto simp: StoreState_def split: sum.splits)
  from FlowRuleAppend_other [OF a] Some show ?thesis unfolding f1 slot_view_version
    by (simp add: slot_view_def flow_store_def flow_tx_def)
qed

lemma start_flow_part_other:
  assumes r: "start_flow_part de_ctx heap s flags alproto alversion (d, f, i0, n, a)
                = Inr (d', f', i', n', a')"
  shows "slot_view f' (Suc 0 - dir_index flags) t = slot_view f (Suc 0 - dir_index flags) t"
proof (cases "sm_amatch s \<noteq> [] \<and> f_alstate f \<noteq> None")
  case False
  with r have "f' = f" by (auto simp: start_flow_part_def split: if_splits)
  then show ?thesis by simp
next
  case True
  then obtain alstate where al: "f_alstate f = Some alstate" and am: "sm_amatch s \<noteq> []" by auto
  obtain sm m i1 where sa: "start_amatch de_ctx flags alproto alstate s (sm_amatch s) 0 i0 = (sm, m, i1)"
    using prod_cases3 by blast
  from r al am sa obtain fl x where "StoreState heap f flags alversion s sm fl = Inr (x, f')"
    by (auto simp: start_flow_part_def Let_def split: sum.splits)
  from StoreState_other [OF this] show ?thesis .
qed

lemma start_dce_part_flow:
  "start_dce_part de_ctx s flags alproto (d, f, i0, n, a) = (e, d', f', i', n', a') \<Longrightarrow> f' = f"
  by (auto simp: start_dce_part_def split: option.splits if_splits)

lemma start_tx_part_other:
  assumes r: "start_tx_part de_ctx heap s flags alproto alversion (d, f, i0, n, a)
                = Inr (e, d', f', i', n', a')"
  shows "slot_view f' (Suc 0 - dir_index flags) t = slot_view f (Suc 0 - dir_index flags) t"
proof (cases "StateIsValid alproto (f_alstate f) \<and> f_alstate f \<noteq> None")
  case False
  with r have "f' = f" by (auto simp: start_tx_part_def split: if_splits)
  then show ?thesis by simp
next
  case True
  then obtain alstate where al: "f_alstate f = Some alstate"
    and v: "StateIsValid alproto (f_alstate f)" by auto
  from r al v have "start_txs de_ctx heap s flags alproto alversion (AppLayerParserGetTxCnt alstate)
                       [inspect_id f flags ..< AppLayerParserGetTxCnt alstate] (d, f, i0, n, a)
                     = Inr (d', f', i', n', a')"
    by (auto simp: start_tx_part_def split: sum.splits)
  from start_txs_other [OF this] show ?thesis .
qed

lemma start_detection_other:
  assumes r: "DeStateDetectStartDetection de_ctx heap det_ctx s f flags alproto alversion
                = Inr (x, det_ctx', f')"
  shows "slot_view f' (Suc 0 - dir_index flags) t = slot_view f (Suc 0 - dir_index flags) t"
proof -
  let ?p1 = "if ProtocolSupportsTxs f alproto then
              start_tx_part de_ctx heap s flags alproto alversion (det_ctx, f, 0, 0, 0)
            else if sm_list_set s DETECT_SM_LIST_DMATCH \<and>
                    (alproto = ALPROTO_DCERPC \<or> alproto = ALPROTO_SMB \<or> alproto = ALPROTO_SMB2)
            then Inr (start_dce_part de_ctx s flags alproto (det_ctx, f, 0, 0, 0))
            else Inr (False, (det_ctx, f, 0, 0, 0))"
  from r obtain e st where p1: "?p1 = Inr (e, st)"
    unfolding DeStateDetectStartDetection_def by (cases ?p1) auto
  obtain d1 f1 i1 n1 a1 where st: "st = (d1, f1, i1, n1, a1)" using prod_cases5 by blast
  have v1: "slot_view f1 (Suc 0 - dir_index flags) t = slot_view f (Suc 0 - dir_index flags) t"
  proof (cases "ProtocolSupportsTxs f alproto")
    case True
    with p1 st have "start_tx_part de_ctx heap s flags alproto alversion (det_ctx, f, 0, 0, 0)
                       = Inr (e, d1, f1, i1, n1, a1)" by simp
    from start_tx_part_other [OF this] show ?thesis .
  next
    case False
    show ?thesis
    proof (cases "sm_list_set s DETECT_SM_LIST_DMATCH \<and>
                    (alproto = ALPROTO_DCERPC \<or> alproto = ALPROTO_SMB \<or> alproto = ALPROTO_SMB2)")
      case True
      with False p1 st have "start_dce_part de_ctx s flags alproto (det_ctx, f, 0, 0, 0)
                               = (e, d1, f1, i1, n1, a1)" by simp
      from start_dce_part_flow [OF this] show ?thesis by simp
    next
      case f2: False
      with False p1 st have "f1 = f" by auto
      then show ?thesis by simp
    qed
  qed
  let ?p2 = "if e then Inr st else start_flow_part de_ctx heap s flags alproto alversion st"
  from r p1 obtain i2 n2 a2 where p2: "?p2 = Inr (det_ctx', f', i2, n2, a2)"
    unfolding DeStateDetectStartDetection_def by (cases ?p2) auto
  have "slot_view f' (Suc 0 - dir_index flags) t = slot_view f1 (Suc 0 - dir_index flags) t"
  proof (cases e)
    case True
    with p2 st show ?thesis by simp
  next
    case False
    with p2 st have "start_flow_part de_ctx heap s flags alproto alversion (d1, f1, i1, n1, a1)
                       = Inr (det_ctx', f', i2, n2, a2)" by simp
    from start_flow_part_other [OF this] show ?thesis .
  qed
  with v1 show ?thesis by simp
qed

lemma set_tx_store_other:
  assumes ft: "flow_tx f tid = Some tx" and ds: "detect_state tx = Some de"
  shows "slot_view (set_tx_store f tid tx de (dir_index flags) store') (Suc 0 - dir_index flags) t
           = slot_view f (Suc 0 - dir_index flags) t"
proof -
  have "tx_store (tx\<lparr>detect_state := Some (upd2 de (dir_index flags)
                          ((idx2 de (dir_index flags))\<lparr>head := store'\<rparr>))\<rparr>) (Suc 0 - dir_index flags)
          = tx_store tx (Suc 0 - dir_index flags)"
    using ds by (simp add: dir_index_le) (simp add: tx_store_def)
  from slot_view_set_tx [OF ft this] show ?thesis unfolding set_tx_store_def .
qed

lemma continue_tx_other:
  assumes r: "ctl_state (continue_tx de_ctx flags alproto total_txs tid (d, f, fnm, sc)) = (d', f', fnm', sc')"
  shows "slot_view f' (Suc 0 - dir_index flags) t = slot_view f (Suc 0 - dir_index flags) t"
proof (cases "flow_tx f tid")
  case None
  with r have "f' = f"
    by (auto simp: continue_tx_def ctl_state_def flow_tx_def split: option.splits)
  then show ?thesis by simp
next
  case (Some inspect_tx)
  then obtain alstate where al: "f_alstate f = Some alstate"
    and tx: "AppLayerParserGetTx alstate tid = Some inspect_tx"
    by (auto simp: flow_tx_def split: option.splits)
  show ?thesis
  proof (cases "detect_state inspect_tx")
    case None
    with al tx r have "f' = f" by (simp add: continue_tx_def ctl_state_def Let_def)
    then show ?thesis by simp
  next
    case ds: (Some tx_de_state)
    let ?dir = "idx2 tx_de_state (dir_index flags)"
    let ?g = "DoInspectItem_logged de_ctx (dir_flags ?dir) f
                alproto flags tid total_txs
                (tx_progress inspect_tx flags < GetStateProgressCompletionStatus f alproto flags)
                (next_tx_dormant alstate flags tid total_txs)"
    obtain ab store1 sc1 d1 fnm1 where w: "inspect_store ?g (unat (cnt ?dir)) (head ?dir) 0 (d, fnm)
         = (ab, store1, sc1, d1, fnm1)"
      using prod_cases5 by blast
    have f': "f' = set_tx_store f tid inspect_tx tx_de_state (dir_index flags) store1"
      using al tx ds w r unfolding continue_tx_def
      by (simp add: Let_def ctl_state_def split: if_splits)
    show ?thesis unfolding f' by (rule set_tx_store_other [OF Some ds])
  qed
qed

lemma continue_txs_other:
  "ctl_state (continue_txs de_ctx flags alproto total_txs ids (d, f, fnm, sc)) = (d', f', fnm', sc') \<Longrightarrow>
     slot_view f' (Suc 0 - dir_index flags) t = slot_view f (Suc 0 - dir_index flags) t"
proof (induction ids arbitrary: d f fnm sc)
  case Nil
  then show ?case by (simp add: ctl_state_def)
next
  case (Cons tid ids)
  let ?c = "continue_tx de_ctx flags alproto total_txs tid (d, f, fnm, sc)"
  obtain d1 f1 fnm1 sc1 where c1: "ctl_state ?c = (d1, f1, fnm1, sc1)" using prod_cases4 by blast
  note v1 = continue_tx_other [OF c1]
  show ?case
  proof (cases ?c)
    case (Next st1')
    with c1 have st1': "st1' = (d1, f1, fnm1, sc1)" by (simp add: ctl_state_def)
    from Cons.prems Next st1'
    have "ctl_state (continue_txs de_ctx flags alproto total_txs ids (d1, f1, fnm1, sc1)) = (d', f', fnm', sc')"
      by simp
    from Cons.IH [OF this] v1 show ?thesis by simp
  next
    case (Break st1')
    with c1 Cons.prems have "f' = f1" by (simp add: ctl_state_def)
    with v1 show ?thesis by simp
  next
    case (End st1')
    with c1 Cons.prems have "f' = f1" by (simp add: ctl_state_def)
    with v1 show ?thesis by simp
  qed
qed

lemma continue_flow_other:
  "slot_view (snd (continue_flow de_ctx flags alproto alversion (d, f, fnm, sc))) (Suc 0 - dir_index flags) t
     = slot_view f (Suc 0 - dir_index flags) t"
proof (cases "f_de_state f")
  case None
  then show ?thesis by (simp add: continue_flow_def)
next
  case (Some de_state)
  obtain ab store1 sc1 d1 where w: "inspect_store
       (DoInspectFlowRule_logged de_ctx (dir_flags (idx2 de_state (dir_index flags))) f alproto flags)
       (unat (cnt (idx2 de_state (dir_index flags)))) (head (idx2 de_state (dir_index flags))) sc d
        = (ab, store1, sc1, d1)"
    using prod_cases4 by blast
  let ?f1 = "f\<lparr>f_de_state := Some (upd2 de_state (dir_index flags)
                  ((idx2 de_state (dir_index flags))\<lparr>head := store1\<rparr>))\<rparr>"
  have a: "slot_view ?f1 (Suc 0 - dir_index flags) t = slot_view f (Suc 0 - dir_index flags) t"
    using Some by (simp add: slot_view_def flow_store_def flow_tx_def dir_index_le)
  have "snd (continue_flow de_ctx flags alproto alversion (d, f, fnm, sc))
          = (if ab then ?f1 else DeStateStoreStateVersion ?f1 alversion flags)"
    using Some w by (simp add: continue_flow_def Let_def)
  with a show ?thesis by (simp add: slot_view_version)
qed

lemma continue_detection_other:
  "slot_view (snd (DeStateDetectContinueDetection de_ctx det_ctx f flags alproto alversion))
     (Suc 0 - dir_index flags) t = slot_view f (Suc 0 - dir_index flags) t"
proof (cases "ProtocolSupportsTxs f alproto")
  case False
  then show ?thesis
    by (simp add: DeStateDetectContinueDetection_def continue_flow_other)
next
  case True
  show ?thesis
  proof (cases "StateIsValid alproto (f_alstate f)")
    case False
    with True show ?thesis by (simp add: DeStateDetectContinueDetection_def)
  next
    case valid: True
    then obtain alstate where al: "f_alstate f = Some alstate"
      by (auto simp: StateIsValid_def split: option.splits)
    let ?ids = "[inspect_id f flags ..< AppLayerParserGetTxCnt alstate]"
    let ?r = "continue_txs de_ctx flags alproto (AppLayerParserGetTxCnt alstate) ?ids (det_ctx, f, 0, 0)"
    obtain d1 f1 fnm1 sc1 where c: "ctl_state ?r = (d1, f1, fnm1, sc1)" using prod_cases4 by blast
    note v1 = continue_txs_other [OF c]
    have "slot_view (snd (DeStateDetectContinueDetection de_ctx det_ctx f flags alproto alversion))
            (Suc 0 - dir_index flags) t = slot_view f1 (Suc 0 - dir_index flags) t"
    proof (cases ?r)
      case (Next st')
      with c True valid al show ?thesis
        by (simp add: DeStateDetectContinueDetection_def ctl_state_def continue_flow_other)
    next
      case (Break st')
      with c True valid al show ?thesis
        by (simp add: DeStateDetectContinueDetection_def ctl_state_def continue_flow_other)
    next
      case (End st')
      with c True valid al show ?thesis
        by (simp add: DeStateDetectContinueDetection_def ctl_state_def)
    qed
    with v1 show ?thesis by simp
  qed
qed

lemma HasStoredSigs_txs_dir:
  "dir_index d' = dir_index d \<Longrightarrow> HasStoredSigs_txs al d' ids = HasStoredSigs_txs al d ids"
  by (induction ids) (simp_all split: option.splits)

lemma HasStoredSigs_dir:
  "dir_index d' = dir_index d \<Longrightarrow> inspect_id f d' = inspect_id f d \<Longrightarrow>
     HasStoredSigs f d' = HasStoredSigs f d"
  by (simp add: HasStoredSigs_def HasStoredSigs_txs_dir [of d' d] split: option.splits)

text \<open>
  Claim C10, as the code has it.  Apart from \<open>DetectEngineStateReset\<close>, the operations pick
  the slot by the \<open>STREAM_TOSERVER\<close> bit alone: slot 0 if it is set, slot 1 otherwise.
  For two direction values \<open>d\<close> and \<open>d'\<close> that agree on that bit, the two appends, the
  version store and the two filestore-count functions give the same result, and so do
  \<open>HasStoredSigs\<close> (when the parser gives the same inspect id for both) and
  \<open>DeStateFlowHasInspectableState\<close> (when the two also agree on \<open>STREAM_EOF\<close>); so a
  value with neither direction bit set is treated as \<open>STREAM_TOCLIENT\<close>.  The appends, the
  filestore count, the version store and both drivers leave the other slot as it was: the
  store of every transaction for that slot, the flow's own store for it and its stored
  version.  \<open>DetectEngineStateReset\<close> reads its argument as a mask instead: it sets \<open>cnt\<close>
  and the flags of slot 0 to zero if and only if \<open>STREAM_TOSERVER\<close> is set, those of slot 1 if
  and only if \<open>STREAM_TOCLIENT\<close> is set, and changes nothing else; on \<open>NULL\<close> it does nothing.
\<close>

theorem slot_selected_by_toserver_bit:
  assumes b: "(d' AND STREAM_TOSERVER = 0) = (d AND STREAM_TOSERVER = 0)"
  shows "dir_index d = (if d AND STREAM_TOSERVER = 0 then 1 else 0) \<and>
     DeStateSignatureAppend state s fl d' ok = DeStateSignatureAppend state s fl d ok \<and>
     DeStateFlowRuleAppend fstate s sm fl d' ok = DeStateFlowRuleAppend fstate s sm fl d ok \<and>
     DeStateStoreStateVersion f alversion d' = DeStateStoreStateVersion f alversion d \<and>
     DeStateStoreFileNoMatchCnt state n d' = DeStateStoreFileNoMatchCnt state n d \<and>
     DeStateStoreFilestoreSigsCantMatch c state d' = DeStateStoreFilestoreSigsCantMatch c state d \<and>
     (inspect_id f d' = inspect_id f d \<longrightarrow> HasStoredSigs f d' = HasStoredSigs f d) \<and>
     (inspect_id f d' = inspect_id f d \<and> (d' AND STREAM_EOF = 0) = (d AND STREAM_EOF = 0) \<longrightarrow>
        DeStateFlowHasInspectableState f alproto alversion d'
          = DeStateFlowHasInspectableState f alproto alversion d) \<and>
     (\<forall>state'. DeStateSignatureAppend state s fl d ok = Inr state' \<longrightarrow>
        idx2 state' (1 - dir_index d) = idx2 state (1 - dir_index d)) \<and>
     (\<forall>fstate'. DeStateFlowRuleAppend fstate s sm fl d ok = Inr fstate' \<longrightarrow>
        idx2 fstate' (1 - dir_index d) = idx2 fstate (1 - dir_index d)) \<and>
     idx2 (DeStateStoreFileNoMatchCnt state n d) (1 - dir_index d) = idx2 state (1 - dir_index d) \<and>
     slot_view (DeStateStoreStateVersion f alversion d) (1 - dir_index d) t
       = slot_view f (1 - dir_index d) t \<and>
     (\<forall>r det_ctx' f'.
        DeStateDetectStartDetection de_ctx heap det_ctx s f d alproto alversion = Inr (r, det_ctx', f') \<longrightarrow>
        slot_view f' (1 - dir_index d) t = slot_view f (1 - dir_index d) t) \<and>
     slot_view (snd (DeStateDetectContinueDetection de_ctx det_ctx f d alproto alversion))
       (1 - dir_index d) t = slot_view f (1 - dir_index d) t \<and>
     DetectEngineStateReset (Some fstate) d =
       Some (if d AND STREAM_TOSERVER \<noteq> 0
             then (idx2 fstate 0)\<lparr>cnt := 0, dir_flags := 0\<rparr> else idx2 fstate 0,
             if d AND STREAM_TOCLIENT \<noteq> 0
             then (idx2 fstate 1)\<lparr>cnt := 0, dir_flags := 0\<rparr> else idx2 fstate 1) \<and>
     DetectEngineStateReset None d = None"
proof -
  from b have i: "dir_index d' = dir_index d" by (auto simp: dir_index_def)
  have c1: "dir_index d = (if d AND STREAM_TOSERVER = 0 then 1 else 0)"
    by (simp add: dir_index_def)
  have c2: "DeStateSignatureAppend state s fl d' ok = DeStateSignatureAppend state s fl d ok"
    unfolding DeStateSignatureAppend_def i by (rule refl)
  have c3: "DeStateFlowRuleAppend fstate s sm fl d' ok = DeStateFlowRuleAppend fstate s sm fl d ok"
    unfolding DeStateFlowRuleAppend_def i by (rule refl)
  have c4: "DeStateStoreStateVersion f alversion d' = DeStateStoreStateVersion f alversion d"
    unfolding DeStateStoreStateVersion_def i by (rule refl)
  have c5: "DeStateStoreFileNoMatchCnt state n d' = DeStateStoreFileNoMatchCnt state n d"
    unfolding DeStateStoreFileNoMatchCnt_def i by (rule refl)
  have c6: "DeStateStoreFilestoreSigsCantMatch c state d' = DeStateStoreFilestoreSigsCantMatch c state d"
    unfolding DeStateStoreFilestoreSigsCantMatch_def i by (rule refl)
  have c7: "inspect_id f d' = inspect_id f d \<longrightarrow> HasStoredSigs f d' = HasStoredSigs f d"
    using HasStoredSigs_dir [OF i] by blast
  have c8: "inspect_id f d' = inspect_id f d \<and> (d' AND STREAM_EOF = 0) = (d AND STREAM_EOF = 0) \<longrightarrow>
        DeStateFlowHasInspectableState f alproto alversion d'
          = DeStateFlowHasInspectableState f alproto alversion d"
  proof
    assume a: "inspect_id f d' = inspect_id f d \<and> (d' AND STREAM_EOF = 0) = (d AND STREAM_EOF = 0)"
    then have h: "HasStoredSigs f d' = HasStoredSigs f d" using HasStoredSigs_dir [OF i] by blast
    from a have e: "(d' AND STREAM_EOF = 0) = (d AND STREAM_EOF = 0)" by blast
    show "DeStateFlowHasInspectableState f alproto alversion d'
          = DeStateFlowHasInspectableState f alproto alversion d"
      unfolding DeStateFlowHasInspectableState_def i h e by (rule refl)
  qed
  have c9: "\<forall>state'. DeStateSignatureAppend state s fl d ok = Inr state' \<longrightarrow>
        idx2 state' (1 - dir_index d) = idx2 state (1 - dir_index d)"
    using SignatureAppend_other [of state s fl d ok] by simp
  have c10: "\<forall>fstate'. DeStateFlowRuleAppend fstate s sm fl d ok = Inr fstate' \<longrightarrow>
        idx2 fstate' (1 - dir_index d) = idx2 fstate (1 - dir_index d)"
    using FlowRuleAppend_other [of fstate s sm fl d ok] by simp
  have c11: "idx2 (DeStateStoreFileNoMatchCnt state n d) (1 - dir_index d) = idx2 state (1 - dir_index d)"
    by (simp add: DeStateStoreFileNoMatchCnt_def dir_index_le)
  have c12: "slot_view (DeStateStoreStateVersion f alversion d) (1 - dir_index d) t
       = slot_view f (1 - dir_index d) t"
    using slot_view_version [of f alversion d t] by simp
  have c13: "\<forall>r det_ctx' f'.
        DeStateDetectStartDetection de_ctx heap det_ctx s f d alproto alversion = Inr (r, det_ctx', f') \<longrightarrow>
        slot_view f' (1 - dir_index d) t = slot_view f (1 - dir_index d) t"
    using start_detection_other [of de_ctx heap det_ctx s f d alproto alversion _ _ _ t] by simp
  have c14: "slot_view (snd (DeStateDetectContinueDetection de_ctx det_ctx f d alproto alversion))
       (1 - dir_index d) t = slot_view f (1 - dir_index d) t"
    using continue_detection_other [of de_ctx det_ctx f d alproto alversion t] by simp
  have c15: "DetectEngineStateReset (Some fstate) d =
       Some (if d AND STREAM_TOSERVER \<noteq> 0
             then (idx2 fstate 0)\<lparr>cnt := 0, dir_flags := 0\<rparr> else idx2 fstate 0,
             if d AND STREAM_TOCLIENT \<noteq> 0
             then (idx2 fstate 1)\<lparr>cnt := 0, dir_flags := 0\<rparr> else idx2 fstate 1)"
    by (cases fstate) (simp add: DetectEngineStateReset_def Let_def idx2_def upd2_def)
  have c16: "DetectEngineStateReset None d = None"
    by (simp add: DetectEngineStateReset_def)
  from c1 c2 c3 c4 c5 c6 c7 c8 c9 c10 c11 c12 c13 c14 c15 c16 show ?thesis by blast
qed

text \<open>
  The direction value 0 against \<open>STREAM_TOCLIENT\<close>, on a detect state and a flow that hold
  records in slot 0 only: the append and the start driver store their record in slot 1 and
  leave slot 0 as it was.  A reset for \<open>STREAM_TOSERVER\<close> empties slot 0 only, one for the
  value 0 nothing.
\<close>

theorem slot_selected_by_toserver_bit_witness:
  "(STREAM_TOCLIENT AND STREAM_TOSERVER = 0) = ((0 :: 8 word) AND STREAM_TOSERVER = 0) \<and>
   dir_index 0 = 1 \<and>
   DeStateSignatureAppend slot0_state (sig_uri 1 False) 0 STREAM_TOCLIENT True
     = DeStateSignatureAppend slot0_state (sig_uri 1 False) 0 0 True \<and>
   (\<exists>state'. DeStateSignatureAppend slot0_state (sig_uri 1 False) 0 0 True = Inr state' \<and>
      idx2 state' 0 = idx2 slot0_state 0 \<and>
      DirStateIter (idx2 state' 1) = [\<lparr>item_sid = 1, item_flags = 0\<rparr>]) \<and>
   HasStoredSigs slot0_flow STREAM_TOCLIENT = HasStoredSigs slot0_flow 0 \<and>
   HasStoredSigs slot0_flow 0 = 0 \<and>
   (\<exists>r det_ctx' f'.
      DeStateDetectStartDetection de_ctx0 heap_ok det_ctx0 (sig_uri 1 False) slot0_flow 0 ALPROTO_HTTP 1
        = Inr (r, det_ctx', f') \<and>
      slot_view f' 0 0 = slot_view slot0_flow 0 0 \<and>
      tx_records f' 0 1 = [\<lparr>item_sid = 1,
                             item_flags = DE_STATE_FLAG_SIG_CANT_MATCH OR DE_STATE_FLAG_URI_INSPECT
                                            OR DE_STATE_FLAG_FULL_INSPECT\<rparr>]) \<and>
   DetectEngineStateReset (Some (two_rules, two_rules)) STREAM_TOSERVER
     = Some (two_rules\<lparr>cnt := 0\<rparr>, two_rules) \<and>
   DetectEngineStateReset (Some (two_rules, two_rules)) 0 = Some (two_rules, two_rules)"
proof -
  let ?s = "sig_uri 1 False"
  let ?fs = "(two_rules, two_rules)"
  have "DetectEngineStateReset (Some ?fs) STREAM_TOSERVER =
       Some (if STREAM_TOSERVER AND STREAM_TOSERVER \<noteq> 0
             then (idx2 ?fs 0)\<lparr>cnt := 0, dir_flags := 0\<rparr> else idx2 ?fs 0,
             if STREAM_TOSERVER AND STREAM_TOCLIENT \<noteq> 0
             then (idx2 ?fs 1)\<lparr>cnt := 0, dir_flags := 0\<rparr> else idx2 ?fs 1)"
    using slot_selected_by_toserver_bit [OF refl, where d = STREAM_TOSERVER and fstate = ?fs]
    by blast
  then have r1: "DetectEngineStateReset (Some ?fs) STREAM_TOSERVER
              = Some (two_rules\<lparr>cnt := 0\<rparr>, two_rules)"
    by (simp add: STREAM_TOSERVER_def STREAM_TOCLIENT_def idx2_def two_rules_def)
  have "DetectEngineStateReset (Some ?fs) 0 =
       Some (if 0 AND STREAM_TOSERVER \<noteq> 0
             then (idx2 ?fs 0)\<lparr>cnt := 0, dir_flags := 0\<rparr> else idx2 ?fs 0,
             if 0 AND STREAM_TOCLIENT \<noteq> 0
             then (idx2 ?fs 1)\<lparr>cnt := 0, dir_flags := 0\<rparr> else idx2 ?fs 1)"
    using slot_selected_by_toserver_bit [OF refl, where d = 0 and fstate = ?fs]
    by blast
  then have r2: "DetectEngineStateReset (Some ?fs) 0 = Some ?fs"
    by (simp add: idx2_def)
  have h: "(STREAM_TOCLIENT AND STREAM_TOSERVER = 0) = ((0 :: 8 word) AND STREAM_TOSERVER = 0)"
    by (simp add: STREAM_TOCLIENT_def STREAM_TOSERVER_def)
  note t = slot_selected_by_toserver_bit [OF h, where state = slot0_state and s = ?s and fl = 0
      and ok = True and f = slot0_flow and de_ctx = de_ctx0 and heap = heap_ok and det_ctx = det_ctx0
      and alproto = ALPROTO_HTTP and alversion = 1 and t = 0]
  have i: "dir_index 0 = 1" by (simp add: dir_index_def)
  have a: "DeStateSignatureAppend slot0_state ?s 0 STREAM_TOCLIENT True
             = DeStateSignatureAppend slot0_state ?s 0 0 True"
    using t by blast
  have "case DeStateSignatureAppend slot0_state ?s 0 0 True of
          Inl e \<Rightarrow> False
        | Inr state' \<Rightarrow> DirStateIter (idx2 state' 1) = [\<lparr>item_sid = 1, item_flags = 0\<rparr>]"
    by code_simp
  then obtain state' where b1: "DeStateSignatureAppend slot0_state ?s 0 0 True = Inr state'"
    and b2: "DirStateIter (idx2 state' 1) = [\<lparr>item_sid = 1, item_flags = 0\<rparr>]"
    by (auto split: sum.splits)
  from t b1 have b3: "idx2 state' (1 - dir_index 0) = idx2 slot0_state (1 - dir_index 0)" by blast
  have id: "inspect_id slot0_flow STREAM_TOCLIENT = inspect_id slot0_flow 0"
    by (simp add: slot0_flow_def http_flow_def)
  with t have c: "HasStoredSigs slot0_flow STREAM_TOCLIENT = HasStoredSigs slot0_flow 0" by blast
  have c0: "HasStoredSigs slot0_flow 0 = 0" by code_simp
  have "case DeStateDetectStartDetection de_ctx0 heap_ok det_ctx0 ?s slot0_flow 0 ALPROTO_HTTP 1 of
          Inl e \<Rightarrow> False
        | Inr (r, det_ctx', f') \<Rightarrow>
            tx_records f' 0 1 = [\<lparr>item_sid = 1,
                             item_flags = DE_STATE_FLAG_SIG_CANT_MATCH OR DE_STATE_FLAG_URI_INSPECT
                                            OR DE_STATE_FLAG_FULL_INSPECT\<rparr>]"
    by code_simp
  then obtain r det_ctx' f' where
    d1: "DeStateDetectStartDetection de_ctx0 heap_ok det_ctx0 ?s slot0_flow 0 ALPROTO_HTTP 1
           = Inr (r, det_ctx', f')"
    and d2: "tx_records f' 0 1 = [\<lparr>item_sid = 1,
                             item_flags = DE_STATE_FLAG_SIG_CANT_MATCH OR DE_STATE_FLAG_URI_INSPECT
                                            OR DE_STATE_FLAG_FULL_INSPECT\<rparr>]"
    by (auto split: sum.splits)
  from t d1 have d3: "slot_view f' (1 - dir_index 0) 0 = slot_view slot0_flow (1 - dir_index 0) 0"
    by blast
  from b3 d3 have b3': "idx2 state' 0 = idx2 slot0_state 0"
    and d3': "slot_view f' 0 0 = slot_view slot0_flow 0 0"
    by (simp_all add: i)
  from h i a b1 b2 b3' c c0 d1 d2 d3' r1 r2 show ?thesis by blast
qed

subsection \<open>The continue driver after the start driver\<close>





lemma alerts_no_new_state [simp]: "alerts (no_new_state d sid') = alerts d"
  by (simp add: no_new_state_def)











































text \<open>
  Outside the statement above: a submatch that answers 2, that it cannot match.  The loop
  of the start driver stops there (lines 583-586) and no alert is raised; the loop of
  \<open>DoInspectFlowRule\<close> sets the flag and goes on (lines 802-803), and with the list exhausted
  the rule alerts.  So a split run alerts where the start driver on the whole input does
  not.
\<close>

lemma cant_match_split_run:
  "split_run (de_ctx_amatch 9) heap_ok det_ctx0 (sig_amatch 5 9) (amatch_flow 0) [amatch_flow 1]
       STREAM_TOSERVER ALPROTO_HTTP 1 2
     = Some [\<lparr>pa_num = 5, pa_tx_id = 0, pa_flags = PACKET_ALERT_FLAG_STATE_MATCH\<rparr>] \<and>
   whole_run (de_ctx_amatch 9) heap_ok det_ctx0 (sig_amatch 5 9) (amatch_flow 1)
       STREAM_TOSERVER ALPROTO_HTTP 1 = Some []"
  by code_simp

end
